theory Spec2Isabelle
  imports Main "HOL-Library.Word"
begin

unbundle bit_operations_syntax

section \<open>Data model of \<^verbatim>\<open>GameTree.js\<close>\<close>

text \<open>
  A node is the plain object \<^verbatim>\<open>{id, data, parentId, children}\<close>. JavaScript objects
  have an identity, which the operator \<^verbatim>\<open>===\<close> compares; the model keeps it as the
  address \<open>addr\<close> of the object. Identifiers are the integers that the default
  generator \<^verbatim>\<open>id++\<close> hands out, so that using an identifier as a property key of the
  cache objects is injective. The payload is a list of key/value pairs that no operation
  of the tree inspects. \<^verbatim>\<open>parentId\<close> is \<^verbatim>\<open>null\<close> (\<open>None\<close>) at the root.
\<close>

type_synonym addr = nat

datatype 'v node =
  Node (addr: addr) (nid: int) (data: "(string \<times> 'v) list")
       (parentId: "int option") (children: "'v node list")

text \<open>
  The errors the file can raise: the \<^verbatim>\<open>Error\<close> thrown by the two step checks, and
  the \<^verbatim>\<open>TypeError\<close> of JavaScript for a property read on \<^verbatim>\<open>null\<close> or
  \<^verbatim>\<open>undefined\<close>.
\<close>

datatype js_error = InvalidStep | TypeError

text \<open>
  A generator is modelled by what it yields when it is consumed to its end: the nodes
  yielded, and the error that ended it, if one did.
\<close>

datatype 'a gen = Gen (yielded: "'a list") (thrown: "js_error option")

text \<open>
  The tree instance. \<open>self\<close> is the identity of the instance. The two caches that are
  objects used as dictionaries are maps; a key that is present with the value
  \<^verbatim>\<open>null\<close> is \<open>Some None\<close>. \<open>getId\<close> is the sequence of identifiers that the
  generator closure produces and \<open>issued\<close> the number of calls made to it so far.
\<close>

record 'v gametree =
  self :: addr
  getId :: "nat \<Rightarrow> int"
  issued :: nat
  merger :: "'v node \<Rightarrow> 'v node \<Rightarrow> (string \<times> 'v) list option"
  root :: "'v node"
  nodeCache :: "int \<rightharpoonup> 'v node option"
  idAliases :: "int \<rightharpoonup> int"
  heightCache :: "int option"
  structureHashCache :: "32 word option"

text \<open>
  The constructor (lines 4 to 31). The three options may be absent. A given root whose
  fields are all present is taken as it is; the typed node has no absent field, so the
  four defaulting assignments of lines 20 to 23 change nothing.
\<close>

definition GameTree_new ::
  "addr \<Rightarrow> addr \<Rightarrow> ((nat \<Rightarrow> int) \<times> nat) option \<Rightarrow>
   ('v node \<Rightarrow> 'v node \<Rightarrow> (string \<times> 'v) list option) option \<Rightarrow> 'v node option \<Rightarrow> 'v gametree"
where
  "GameTree_new fresh fresh_root getId_opt merger_opt root_opt =
    (let (g, n) = (case getId_opt of None \<Rightarrow> (int, 0) | Some gn \<Rightarrow> gn);
         m = (case merger_opt of None \<Rightarrow> (\<lambda>_ _. None) | Some f \<Rightarrow> f);
         (r, n') = (case root_opt of
                      None \<Rightarrow> (Node fresh_root (g n) [] None [], Suc n)
                    | Some r \<Rightarrow> (r, n))
     in \<lparr> self = fresh, getId = g, issued = n', merger = m, root = r,
          nodeCache = Map.empty, idAliases = Map.empty,
          heightCache = None, structureHashCache = None \<rparr>)"

subsection \<open>\<^verbatim>\<open>get\<close> (lines 33 to 66)\<close>

text \<open>
  The local function \<^verbatim>\<open>inner\<close>: a depth-first search for \<open>i\<close> that writes every node
  it visits into the cache, and stops at the first node whose identifier is \<open>i\<close>.
\<close>

fun get_inner :: "int \<Rightarrow> 'v node \<Rightarrow> (int \<rightharpoonup> 'v node option) \<Rightarrow>
                  'v node option \<times> (int \<rightharpoonup> 'v node option)"
and get_inner_children :: "int \<Rightarrow> 'v node list \<Rightarrow> (int \<rightharpoonup> 'v node option) \<Rightarrow>
                  'v node option \<times> (int \<rightharpoonup> 'v node option)"
where
  "get_inner i (Node a j d p cs) c =
     (let c1 = c(j \<mapsto> Some (Node a j d p cs))
      in if j = i then (Some (Node a j d p cs), c1) else get_inner_children i cs c1)"
| "get_inner_children i [] c = (None, c)"
| "get_inner_children i (ch # cs) c =
     (case get_inner i ch c of
        (Some r, c1) \<Rightarrow> (Some r, c1)
      | (None, c1) \<Rightarrow> get_inner_children i cs c1)"

text \<open>
  \<^verbatim>\<open>get\<close> calls itself through the alias table, which nothing forces to be acyclic:
  the first argument bounds the depth of the calls, and \<open>None\<close> is a call that did
  not return within it. A result is the node found (or \<^verbatim>\<open>null\<close>) and the tree with
  its cache as the call left it. The operations below that call \<^verbatim>\<open>get\<close>, call
  themselves or loop take such a bound too and pass on what is left of it; they return
  the tree as well, since each lookup may fill the cache.
\<close>

fun get :: "nat \<Rightarrow> 'v gametree \<Rightarrow> int option \<Rightarrow> ('v node option \<times> 'v gametree) option" where
  "get 0 t i = None"
| "get (Suc n) t None = Some (None, t)"
| "get (Suc n) t (Some i) =
     (case idAliases t i of
        Some j \<Rightarrow> get n t (Some j)
      | None \<Rightarrow>
          (let (node, t1) =
                 (case nodeCache t i of
                    Some cached \<Rightarrow> (cached, t)
                  | None \<Rightarrow>
                      (case get_inner i (root t) (nodeCache t) of
                         (r, c) \<Rightarrow> (r, t\<lparr>nodeCache := c\<rparr>)))
           in case node of
                None \<Rightarrow> Some (None, t1\<lparr>nodeCache := (nodeCache t1)(i \<mapsto> None)\<rparr>)
              | Some nd \<Rightarrow>
                  Some (Some nd,
                        t1\<lparr>nodeCache :=
                             fold (\<lambda>child c. c(nid child \<mapsto> Some child)) (children nd)
                                  (nodeCache t1)\<rparr>)))"

subsection \<open>\<^verbatim>\<open>getSequence\<close> (lines 68 to 75)\<close>

text \<open>
  The generator yields the node of \<open>i\<close> and, when that node has exactly one child,
  continues with \<^verbatim>\<open>getSequence\<close> of the child's identifier.
\<close>

fun getSequence :: "nat \<Rightarrow> 'v gametree \<Rightarrow> int option \<Rightarrow> ('v node list \<times> 'v gametree) option" where
  "getSequence 0 t i = None"
| "getSequence (Suc n) t i =
     (case get n t i of
        None \<Rightarrow> None
      | Some (None, t1) \<Rightarrow> Some ([], t1)
      | Some (Some nd, t1) \<Rightarrow>
          (case children nd of
             [ch] \<Rightarrow>
               (case getSequence n t1 (Some (nid ch)) of
                  None \<Rightarrow> None
                | Some (ys, t2) \<Rightarrow> Some (nd # ys, t2))
           | _ \<Rightarrow> Some ([nd], t1)))"

subsection \<open>\<^verbatim>\<open>mutate\<close> (lines 77 to 95)\<close>

text \<open>
  \<^verbatim>\<open>Draft.js\<close> is not among the sources. What \<^verbatim>\<open>mutate\<close> reads of the draft after the
  callback has run is this record; lines 78 and 80 (the construction of the draft and the
  call of the callback on it) are the parameter \<open>mutator\<close>, which gives the draft as
  the callback leaves it. The ids that the callback draws from the generator are not
  followed.
\<close>

record 'v draft =
  draft_root :: "'v node"
  passOnNodeCache :: bool
  draft_nodeCache :: "int \<rightharpoonup> 'v node option"
  draft_idAliases :: "int \<rightharpoonup> int"
  draft_structureHashCache :: "32 word option"
  draft_heightCache :: "int option"

text \<open>\<open>fresh\<close> is the address that a tree instance allocated by this call receives.\<close>

definition mutate :: "addr \<Rightarrow> 'v gametree \<Rightarrow> ('v gametree \<Rightarrow> 'v draft) \<Rightarrow> 'v gametree" where
  "mutate fresh t mutator =
    (let draft = mutator t
     in if addr (draft_root draft) = addr (root t) then t
        else
          (let tree = GameTree_new fresh fresh (Some (getId t, issued t)) (Some (merger t))
                        (Some (draft_root draft))
           in tree\<lparr> nodeCache := (if passOnNodeCache draft then draft_nodeCache draft
                                   else nodeCache tree),
                    idAliases := draft_idAliases draft,
                    structureHashCache := draft_structureHashCache draft,
                    heightCache := draft_heightCache draft \<rparr>))"

subsection \<open>\<^verbatim>\<open>navigate\<close> (lines 97 to 110)\<close>

text \<open>
  \<open>currents\<close> is \<open>None\<close> where the source passes no third argument, as the call of
  line 102 does; reading a property of it is then a \<^verbatim>\<open>TypeError\<close>.
\<close>

fun navigate :: "nat \<Rightarrow> 'v gametree \<Rightarrow> int option \<Rightarrow> int \<Rightarrow> (int \<rightharpoonup> int) option \<Rightarrow>
                 ((js_error + 'v node option) \<times> 'v gametree) option" where
  "navigate 0 t i step currents = None"
| "navigate (Suc n) t i step currents =
     (case get n t i of
        None \<Rightarrow> None
      | Some (None, t1) \<Rightarrow> Some (Inr None, t1)
      | Some (Some nd, t1) \<Rightarrow>
          if step = 0 then Some (Inr (Some nd), t1)
          else if step < 0 then navigate n t1 (parentId nd) (step + 1) None
          else
            (case currents of
               None \<Rightarrow> Some (Inl TypeError, t1)
             | Some c \<Rightarrow>
                 (let nextId =
                        (case c (nid nd) of
                           Some x \<Rightarrow> Some x
                         | None \<Rightarrow>
                             (case children nd of [] \<Rightarrow> None | ch # _ \<Rightarrow> Some (nid ch)))
                  in case nextId of
                       None \<Rightarrow> Some (Inr None, t1)
                     | Some x \<Rightarrow> navigate n t1 (Some x) (step - 1) currents)))"

subsection \<open>\<^verbatim>\<open>listNodes\<close> (lines 112 to 122)\<close>

fun listNodes_inner :: "'v node \<Rightarrow> 'v node list" where
  "listNodes_inner (Node a j d p cs) = Node a j d p cs # concat (map listNodes_inner cs)"

definition listNodes :: "'v gametree \<Rightarrow> 'v node list" where
  "listNodes t = listNodes_inner (root t)"

subsection \<open>\<^verbatim>\<open>getLevel\<close> (lines 163 to 170) and \<^verbatim>\<open>getSection\<close> (lines 172 to 182)\<close>

text \<open>
  A level is a number or \<^verbatim>\<open>null\<close>. In arithmetic and in \<^verbatim>\<open><\<close>, JavaScript reads
  \<^verbatim>\<open>null\<close> as the number 0; \<^verbatim>\<open>null === 0\<close> is false.
\<close>

definition toNumber :: "int option \<Rightarrow> int" where
  "toNumber x = (case x of None \<Rightarrow> 0 | Some v \<Rightarrow> v)"

fun getLevel :: "nat \<Rightarrow> 'v gametree \<Rightarrow> int option \<Rightarrow> (int option \<times> 'v gametree) option" where
  "getLevel 0 t i = None"
| "getLevel (Suc n) t i =
     (if i = Some (nid (root t)) then Some (Some 0, t)
      else
        (case get n t i of
           None \<Rightarrow> None
         | Some (None, t1) \<Rightarrow> Some (None, t1)
         | Some (Some nd, t1) \<Rightarrow>
             (case getLevel n t1 (parentId nd) of
                None \<Rightarrow> None
              | Some (l, t2) \<Rightarrow> Some (Some (toNumber l + 1), t2))))"

function getSection :: "'v gametree \<Rightarrow> int option \<Rightarrow> 'v node list" where
  "getSection t level =
     (if toNumber level < 0 then []
      else if level = Some 0 then [root t]
      else concat (map children (getSection t (Some (toNumber level - 1)))))"
  by pat_completeness auto
termination
  by (relation "measure (\<lambda>(t, level). case level of None \<Rightarrow> 1 | Some l \<Rightarrow> if l < 0 then 0 else nat l + 2)")
     (auto simp: toNumber_def split: option.splits)

declare getSection.simps [simp del]

subsection \<open>\<^verbatim>\<open>listNodesHorizontally\<close> (lines 124 to 141)\<close>

fun findIndex :: "('a \<Rightarrow> bool) \<Rightarrow> 'a list \<Rightarrow> int" where
  "findIndex P [] = - 1"
| "findIndex P (x # xs) =
     (if P x then 0 else (let r = findIndex P xs in if r < 0 then - 1 else r + 1))"

text \<open>
  The inner loop of lines 132 to 135: it yields the elements of the section from
  \<open>index\<close> on in the direction of \<open>step\<close> and returns them with the index at
  which it left the array.
\<close>

fun horizontal_walk :: "nat \<Rightarrow> 'a list \<Rightarrow> int \<Rightarrow> int \<Rightarrow> ('a list \<times> int) option" where
  "horizontal_walk 0 section index step = None"
| "horizontal_walk (Suc n) section index step =
     (if 0 \<le> index \<and> index < int (length section) then
        (case horizontal_walk n section (index + step) step of
           None \<Rightarrow> None
         | Some (ys, k) \<Rightarrow> Some (section ! nat index # ys, k))
      else Some ([], index))"

text \<open>
  The outer loop of lines 131 to 140. \<^verbatim>\<open>section[index] != null\<close> holds exactly when
  the index is inside the array, since the elements of a section are nodes.
\<close>

fun horizontal_loop :: "nat \<Rightarrow> 'v gametree \<Rightarrow> 'v node list \<Rightarrow> int \<Rightarrow> int option \<Rightarrow> int \<Rightarrow>
                        'v node list option" where
  "horizontal_loop 0 t section index level step = None"
| "horizontal_loop (Suc n) t section index level step =
     (if 0 \<le> index \<and> index < int (length section) then
        (case horizontal_walk n section index step of
           None \<Rightarrow> None
         | Some (ys, _) \<Rightarrow>
             (let level' = Some (toNumber level + step);
                  section' = (if step > 0 then concat (map children section)
                              else getSection t level');
                  index' = (if step > 0 then 0 else int (length section') - 1)
              in case horizontal_loop n t section' index' level' step of
                   None \<Rightarrow> None
                 | Some zs \<Rightarrow> Some (ys @ zs)))
      else Some [])"

definition listNodesHorizontally ::
  "nat \<Rightarrow> 'v gametree \<Rightarrow> int option \<Rightarrow> int \<Rightarrow> ('v node gen \<times> 'v gametree) option" where
  "listNodesHorizontally n t startId step =
     (if \<bar>step\<bar> \<noteq> 1 then Some (Gen [] (Some InvalidStep), t)
      else
        (case getLevel n t startId of
           None \<Rightarrow> None
         | Some (level, t1) \<Rightarrow>
             (let section = getSection t1 level;
                  index = findIndex (\<lambda>node. Some (nid node) = startId) section
              in case horizontal_loop n t1 section index level step of
                   None \<Rightarrow> None
                 | Some ys \<Rightarrow> Some (Gen ys None, t1))))"

subsection \<open>\<^verbatim>\<open>listNodesVertically\<close>, \<^verbatim>\<open>listCurrentNodes\<close>, \<^verbatim>\<open>listMainNodes\<close> (lines 143 to 161)\<close>

text \<open>The loop of lines 149 to 152, from the node it holds.\<close>

fun vertical_loop :: "nat \<Rightarrow> 'v gametree \<Rightarrow> 'v node option \<Rightarrow> int \<Rightarrow> (int \<rightharpoonup> int) option \<Rightarrow>
                      ('v node gen \<times> 'v gametree) option" where
  "vertical_loop 0 t node step currents = None"
| "vertical_loop (Suc n) t None step currents = Some (Gen [] None, t)"
| "vertical_loop (Suc n) t (Some nd) step currents =
     (case navigate n t (Some (nid nd)) step currents of
        None \<Rightarrow> None
      | Some (Inl e, t1) \<Rightarrow> Some (Gen [nd] (Some e), t1)
      | Some (Inr nxt, t1) \<Rightarrow>
          (case vertical_loop n t1 nxt step currents of
             None \<Rightarrow> None
           | Some (g, t2) \<Rightarrow> Some (Gen (nd # yielded g) (thrown g), t2)))"

definition listNodesVertically ::
  "nat \<Rightarrow> 'v gametree \<Rightarrow> int option \<Rightarrow> int \<Rightarrow> (int \<rightharpoonup> int) option \<Rightarrow>
   ('v node gen \<times> 'v gametree) option" where
  "listNodesVertically n t startId step currents =
     (if \<bar>step\<bar> \<noteq> 1 then Some (Gen [] (Some InvalidStep), t)
      else
        (case get n t startId of
           None \<Rightarrow> None
         | Some (node, t1) \<Rightarrow> vertical_loop n t1 node step currents))"

definition listCurrentNodes ::
  "nat \<Rightarrow> 'v gametree \<Rightarrow> (int \<rightharpoonup> int) option \<Rightarrow> ('v node gen \<times> 'v gametree) option" where
  "listCurrentNodes n t currents = listNodesVertically n t (Some (nid (root t))) 1 currents"

definition listMainNodes :: "nat \<Rightarrow> 'v gametree \<Rightarrow> ('v node gen \<times> 'v gametree) option" where
  "listMainNodes n t = listCurrentNodes n t (Some Map.empty)"

subsection \<open>\<^verbatim>\<open>getStructureHash\<close> (lines 207 to 234)\<close>

text \<open>
  The accumulator of \<^verbatim>\<open>hash\<close> is a 32-bit integer after every step, since \<^verbatim>\<open>^\<close>
  truncates its operands to 32 bits and the product with 33 of a 32-bit integer is
  exact in a double: the step is a multiplication and an exclusive or on 32-bit words.
  \<^verbatim>\<open>JSON.stringify\<close> of an integer identifier is its decimal numeral (for an
  identifier below \<open>10\<^sup>2\<^sup>1\<close> in absolute value; from there on JavaScript prints an
  exponent, which the model does not follow), and \<^verbatim>\<open>>>> 0\<close> reads the word as unsigned.
\<close>

function digits :: "nat \<Rightarrow> string" where
  "digits n = (if n < 10 then [char_of (48 + n)]
               else digits (n div 10) @ [char_of (48 + n mod 10)])"
  by pat_completeness auto
termination
  by (relation "measure id") auto

declare digits.simps [simp del]

definition JSON_stringify :: "int \<Rightarrow> string" where
  "JSON_stringify i = (if i < 0 then CHR ''-'' # digits (nat (- i)) else digits (nat i))"

definition hash :: "32 word \<Rightarrow> string \<Rightarrow> 32 word" where
  "hash result str = fold (\<lambda>ch r. (r * 33) XOR of_nat (of_char ch)) str result"

fun hash_inner :: "'v node \<Rightarrow> 32 word \<Rightarrow> 32 word" where
  "hash_inner (Node a j d p cs) result =
     hash (fold hash_inner cs (hash result (CHR ''['' # JSON_stringify j @ '',''))) '']''"

definition getStructureHash :: "'v gametree \<Rightarrow> string \<times> 'v gametree" where
  "getStructureHash t =
     (case structureHashCache t of
        None \<Rightarrow>
          (let h = hash_inner (root t) 5381
           in (digits (unat h), t\<lparr>structureHashCache := Some h\<rparr>))
      | Some h \<Rightarrow> (digits (unat h), t))"

subsection \<open>\<^verbatim>\<open>onCurrentLine\<close> and \<^verbatim>\<open>onMainLine\<close> (lines 236 to 251)\<close>

text \<open>
  Line 238 reads \<^verbatim>\<open>parentId\<close> of the looked-up node without a check, which is a
  \<^verbatim>\<open>TypeError\<close> when the lookup gave \<^verbatim>\<open>null\<close>. The expression of lines 240 to 246
  is evaluated from the left with the short cuts of \<^verbatim>\<open>||\<close> and \<^verbatim>\<open>&&\<close>.
\<close>

fun onCurrentLine :: "nat \<Rightarrow> 'v gametree \<Rightarrow> int option \<Rightarrow> (int \<rightharpoonup> int) option \<Rightarrow>
                      ((js_error + bool) \<times> 'v gametree) option" where
  "onCurrentLine 0 t i currents = None"
| "onCurrentLine (Suc n) t i currents =
     (case get n t i of
        None \<Rightarrow> None
      | Some (None, t1) \<Rightarrow> Some (Inl TypeError, t1)
      | Some (Some nd, t1) \<Rightarrow>
          (case parentId nd of
             None \<Rightarrow> Some (Inr True, t1)
           | Some p \<Rightarrow>
               (case currents of
                  None \<Rightarrow> Some (Inl TypeError, t1)
                | Some c \<Rightarrow>
                    if c p = Some (nid nd) then onCurrentLine n t1 (Some p) currents
                    else if c p \<noteq> None then Some (Inr False, t1)
                    else
                      (case get n t1 (Some p) of
                         None \<Rightarrow> None
                       | Some (None, t2) \<Rightarrow> Some (Inl TypeError, t2)
                       | Some (Some pn, t2) \<Rightarrow>
                           (case children pn of
                              [] \<Rightarrow> Some (Inr False, t2)
                            | ch # _ \<Rightarrow>
                                if addr ch = addr nd
                                then onCurrentLine n t2 (Some p) currents
                                else Some (Inr False, t2))))))"

definition onMainLine ::
  "nat \<Rightarrow> 'v gametree \<Rightarrow> int option \<Rightarrow> ((js_error + bool) \<times> 'v gametree) option" where
  "onMainLine n t i = onCurrentLine n t i (Some Map.empty)"

section \<open>The scenario tree\<close>

text \<open>
  The tree of the scenario: the root R (id 0) has the children A (id 1) and B (id 2), and
  A has the child C (id 3). It is built by the constructor from the root object.
\<close>

definition scenario_C :: "unit node" where
  "scenario_C = Node 13 3 [] (Some 1) []"

definition scenario_A :: "unit node" where
  "scenario_A = Node 11 1 [] (Some 0) [scenario_C]"

definition scenario_B :: "unit node" where
  "scenario_B = Node 12 2 [] (Some 0) []"

definition scenario_R :: "unit node" where
  "scenario_R = Node 10 0 [] None [scenario_A, scenario_B]"

definition scenario :: "unit gametree" where
  "scenario = GameTree_new 1 2 None None (Some scenario_R)"

text \<open>The scenario tree with an alias table in which the stale identifier 5 names C.\<close>

definition aliased :: "unit gametree" where
  "aliased = scenario\<lparr>idAliases := [5 \<mapsto> 3]\<rparr>"

text \<open>The scenario tree with an alias table in which the stale identifier 5 names the root.\<close>

definition aliased_root :: "unit gametree" where
  "aliased_root = scenario\<lparr>idAliases := [5 \<mapsto> 0]\<rparr>"

text \<open>A tree of the same shape and identifiers as the scenario, with other payloads.\<close>

definition payload_tree :: "nat gametree" where
  "payload_tree =
     GameTree_new 3 4 None None
       (Some (Node 20 0 [(''GM'', 1)] None
                [Node 21 1 [(''B'', 4)] (Some 0) [Node 23 3 [(''B'', 5), (''C'', 0)] (Some 1) []],
                 Node 22 2 [(''W'', 7)] (Some 0) []]))"

lemmas scenario_defs =
  scenario_def scenario_R_def scenario_A_def scenario_B_def scenario_C_def GameTree_new_def

section \<open>Notions of the specification\<close>

text \<open>
  The node that an identifier names: the first node in depth-first order that carries it.
\<close>

definition lookup_node :: "'v gametree \<Rightarrow> int \<Rightarrow> 'v node option" where
  "lookup_node t j = List.find (\<lambda>x. nid x = j) (listNodes t)"

text \<open>
  Resolving an identifier through the alias table: follow the table until an identifier
  is reached that is not a key of it. The first argument bounds the number of
  identifiers visited; a cyclic table gives \<open>None\<close> for every bound.
\<close>

fun resolveAlias :: "nat \<Rightarrow> (int \<rightharpoonup> int) \<Rightarrow> int \<Rightarrow> int option" where
  "resolveAlias 0 al i = None"
| "resolveAlias (Suc n) al i =
     (case al i of None \<Rightarrow> Some i | Some j \<Rightarrow> resolveAlias n al j)"

text \<open>
  What the node cache of a tree holds at any moment: under a key, a node of the tree that
  carries the key as its identifier, or the known-absent marker for an identifier that no
  node of the tree carries. The constructor starts with the empty cache, and every
  assignment to the cache in \<^verbatim>\<open>get\<close> keeps it so.
\<close>

definition cache_ok_for :: "'v node \<Rightarrow> (int \<rightharpoonup> 'v node option) \<Rightarrow> bool" where
  "cache_ok_for r c \<longleftrightarrow>
     (\<forall>k. case c k of
            None \<Rightarrow> True
          | Some None \<Rightarrow> k \<notin> nid ` set (listNodes_inner r)
          | Some (Some x) \<Rightarrow> x \<in> set (listNodes_inner r) \<and> nid x = k)"

definition cache_ok :: "'v gametree \<Rightarrow> bool" where
  "cache_ok t \<longleftrightarrow> cache_ok_for (root t) (nodeCache t)"

text \<open>Two states of a tree instance that differ in the node cache only.\<close>

definition cache_only :: "'v gametree \<Rightarrow> 'v gametree \<Rightarrow> bool" where
  "cache_only t t' \<longleftrightarrow> (\<exists>c. t' = t\<lparr>nodeCache := c\<rparr>)"

text \<open>
  The shape of a tree with its identifiers: what is left of a node when its payload, its
  address and its parent reference are forgotten.
\<close>

datatype idtree = IdTree int "idtree list"

fun skeleton :: "'v node \<Rightarrow> idtree" where
  "skeleton (Node a j d p cs) = IdTree j (map skeleton cs)"

text \<open>
  The hash cache of a tree is unset, or it holds what \<^verbatim>\<open>getStructureHash\<close> stores in it.
\<close>

definition hash_cache_ok :: "'v gametree \<Rightarrow> bool" where
  "hash_cache_ok t \<longleftrightarrow>
     structureHashCache t = None \<or> structureHashCache t = Some (hash_inner (root t) 5381)"

text \<open>
  The invariants of a tree: identifiers are unique; the root has no parent and the
  \<^verbatim>\<open>parentId\<close> of every other node is the identifier of the node that holds it among its
  children; the nodes of the tree are different objects, so they have different
  addresses.
\<close>

fun parents_ok :: "'v node \<Rightarrow> bool" where
  "parents_ok (Node a j d p cs) = (\<forall>c \<in> set cs. parentId c = Some j \<and> parents_ok c)"

definition tree_ok :: "'v gametree \<Rightarrow> bool" where
  "tree_ok t \<longleftrightarrow>
     distinct (map nid (listNodes t)) \<and> parentId (root t) = None \<and> parents_ok (root t) \<and>
     distinct (map addr (listNodes t))"

text \<open>
  The keys of the alias table are stale identifiers: none of them is the identifier of a
  node of the tree.
\<close>

definition aliases_ok :: "'v gametree \<Rightarrow> bool" where
  "aliases_ok t \<longleftrightarrow> (\<forall>x \<in> set (listNodes t). idAliases t (nid x) = None)"

definition wf_tree :: "'v gametree \<Rightarrow> bool" where
  "wf_tree t \<longleftrightarrow> tree_ok t \<and> aliases_ok t \<and> cache_ok t"

text \<open>Every alias chain ends after fewer than \<open>K\<close> redirections.\<close>

definition aliases_end :: "nat \<Rightarrow> 'v gametree \<Rightarrow> bool" where
  "aliases_end K t \<longleftrightarrow> (\<forall>x. resolveAlias K (idAliases t) x \<noteq> None)"

text \<open>The node that an identifier, or \<^verbatim>\<open>null\<close>, resolves to.\<close>

definition lookup :: "nat \<Rightarrow> 'v gametree \<Rightarrow> int option \<Rightarrow> 'v node option" where
  "lookup K t io =
     (case io of
        None \<Rightarrow> None
      | Some i \<Rightarrow>
          (case resolveAlias K (idAliases t) i of
             None \<Rightarrow> None
           | Some j \<Rightarrow> lookup_node t j))"

text \<open>
  The path from a node down to the node that carries an identifier: the nodes from the
  first to the last, each a child of the one before it.
\<close>

fun path_to :: "'v node \<Rightarrow> int \<Rightarrow> 'v node list option"
and path_in :: "'v node list \<Rightarrow> int \<Rightarrow> 'v node list option"
where
  "path_to (Node a j d p cs) i =
     (if j = i then Some [Node a j d p cs]
      else map_option (Cons (Node a j d p cs)) (path_in cs i))"
| "path_in [] i = None"
| "path_in (c # cs) i = (case path_to c i of Some ps \<Rightarrow> Some ps | None \<Rightarrow> path_in cs i)"

text \<open>
  The walk down of \<open>k\<close> edges from a node: the next node is the one that the
  identifier \<open>currents[node.id]\<close> resolves to when the currents have one, else the first
  child, else there is none.
\<close>

fun descend :: "nat \<Rightarrow> 'v gametree \<Rightarrow> (int \<rightharpoonup> int) \<Rightarrow> 'v node \<Rightarrow> nat \<Rightarrow> 'v node option" where
  "descend K t c n 0 = Some n"
| "descend K t c n (Suc k) =
     (case c (nid n) of
        Some x \<Rightarrow> (case lookup K t (Some x) of None \<Rightarrow> None | Some n' \<Rightarrow> descend K t c n' k)
      | None \<Rightarrow> (case children n of [] \<Rightarrow> None | ch # _ \<Rightarrow> descend K t c ch k))"

text \<open>
  The single-child chain from a node: the node, then its only child, and so on, up to and
  including the first node that has no child or more than one.
\<close>

fun chain :: "'v node \<Rightarrow> 'v node list" where
  "chain (Node a j d p cs) = Node a j d p cs # (case cs of [c] \<Rightarrow> chain c | _ \<Rightarrow> [])"

definition single_child_chain :: "'v node \<Rightarrow> 'v node list \<Rightarrow> bool" where
  "single_child_chain n ns \<longleftrightarrow>
     ns \<noteq> [] \<and> hd ns = n \<and>
     (\<forall>k. Suc k < length ns \<longrightarrow> children (ns ! k) = [ns ! Suc k]) \<and>
     length (children (last ns)) \<noteq> 1"

text \<open>The main line from a node: the node, then its first child, and so on.\<close>

fun mainline :: "'v node \<Rightarrow> 'v node list" where
  "mainline (Node a j d p cs) = Node a j d p cs # (case cs of [] \<Rightarrow> [] | c # _ \<Rightarrow> mainline c)"

text \<open>A path on which every node but the first is the first child of the node before it.\<close>

fun first_child_path :: "'v node list \<Rightarrow> bool" where
  "first_child_path (p # n # rest) =
     ((case children p of [] \<Rightarrow> False | c # _ \<Rightarrow> c = n) \<and> first_child_path (n # rest))"
| "first_child_path _ = True"

text \<open>
  A call on the tree \<open>t\<close> returned \<open>r\<close>: it did not run out of depth, it changed
  nothing of the tree but the node cache, and the tree it leaves is well formed.
\<close>

definition returns :: "('a \<times> 'v gametree) option \<Rightarrow> 'v gametree \<Rightarrow> 'a \<Rightarrow> bool" where
  "returns res t r \<longleftrightarrow> (\<exists>t'. res = Some (r, t') \<and> cache_only t t' \<and> wf_tree t')"

text \<open>
  The currents name children: whenever they hold an entry for the identifier of a node
  of the tree, the entry is the identifier of one of that node's children.
\<close>

definition currents_name_children :: "'v gametree \<Rightarrow> (int \<rightharpoonup> int) \<Rightarrow> bool" where
  "currents_name_children t c \<longleftrightarrow>
     (\<forall>n \<in> set (listNodes t).
        case c (nid n) of None \<Rightarrow> True | Some x \<Rightarrow> x \<in> nid ` set (children n))"

text \<open>
  The walk down of \<open>k\<close> edges that only ever steps to a child: to the child that the
  currents name when they have an entry, else to the first child.
\<close>

fun child_walk :: "(int \<rightharpoonup> int) \<Rightarrow> 'v node \<Rightarrow> nat \<Rightarrow> 'v node option" where
  "child_walk c n 0 = Some n"
| "child_walk c n (Suc k) =
     (case c (nid n) of
        Some x \<Rightarrow>
          (case List.find (\<lambda>ch. nid ch = x) (children n) of
             None \<Rightarrow> None
           | Some ch \<Rightarrow> child_walk c ch k)
      | None \<Rightarrow> (case children n of [] \<Rightarrow> None | ch # _ \<Rightarrow> child_walk c ch k))"

text \<open>The node \<open>r\<close> lies exactly \<open>k\<close> edges below the node \<open>n\<close>.\<close>

fun below :: "'v node \<Rightarrow> nat \<Rightarrow> 'v node \<Rightarrow> bool" where
  "below n 0 r = (r = n)"
| "below n (Suc k) r = (\<exists>ch \<in> set (children n). below ch k r)"

section \<open>Lookup by identifier\<close>

lemma find_append:
  "List.find P (xs @ ys) = (case List.find P xs of Some x \<Rightarrow> Some x | None \<Rightarrow> List.find P ys)"
  by (induction xs) auto

lemma get_inner_result:
  "fst (get_inner i nd c) = List.find (\<lambda>x. nid x = i) (listNodes_inner nd)"
  "fst (get_inner_children i cs c) = List.find (\<lambda>x. nid x = i) (concat (map listNodes_inner cs))"
proof (induction i nd c and i cs c rule: get_inner_get_inner_children.induct)
  case (1 i a j d p cs c)
  show ?case
  proof (cases "j = i")
    case True
    then show ?thesis by (simp add: Let_def)
  next
    case False
    with 1 [OF refl False] show ?thesis by (simp add: Let_def fun_upd_def)
  qed
next
  case (2 i c)
  then show ?case by simp
next
  case (3 i ch cs c)
  then show ?case
    by (cases "get_inner i ch c") (auto simp: find_append split: option.splits)
qed

lemma get_inner_cache:
  "snd (get_inner i nd c) k = c k \<or>
     (\<exists>x \<in> set (listNodes_inner nd). nid x = k \<and> snd (get_inner i nd c) k = Some (Some x))"
  "snd (get_inner_children i cs c) k = c k \<or>
     (\<exists>x \<in> set (concat (map listNodes_inner cs)). nid x = k \<and>
         snd (get_inner_children i cs c) k = Some (Some x))"
proof (induction i nd c and i cs c rule: get_inner_get_inner_children.induct)
  case (1 i a j d p cs c)
  show ?case
  proof (cases "j = i")
    case True
    then show ?thesis by (auto simp: Let_def)
  next
    case False
    from 1 [OF refl False] False show ?thesis
      by (cases "k = j") (auto simp: Let_def fun_upd_def)
  qed
next
  case (2 i c)
  then show ?case by simp
next
  case (3 i ch cs c)
  obtain r c1 where g: "get_inner i ch c = (r, c1)" by (cases "get_inner i ch c")
  from 3(1) g have h1: "c1 k = c k \<or>
      (\<exists>x \<in> set (listNodes_inner ch). nid x = k \<and> c1 k = Some (Some x))" by simp
  show ?case
  proof (cases r)
    case (Some nd)
    with g h1 show ?thesis by auto
  next
    case None
    with 3(2) g have h2: "snd (get_inner_children i cs c1) k = c1 k \<or>
      (\<exists>x \<in> set (concat (map listNodes_inner cs)). nid x = k \<and>
         snd (get_inner_children i cs c1) k = Some (Some x))" by simp
    from None g h1 h2 show ?thesis by auto
  qed
qed

lemma self_in_listNodes_inner [simp]: "x \<in> set (listNodes_inner x)"
  by (cases x) simp

lemma children_in_listNodes_inner:
  "x \<in> set (listNodes_inner r) \<Longrightarrow> ch \<in> set (children x) \<Longrightarrow> ch \<in> set (listNodes_inner r)"
proof (induction r)
  case (Node a j d p cs)
  show ?case
  proof (cases "x = Node a j d p cs")
    case True
    with Node.prems have "ch \<in> set cs" by simp
    moreover have "ch \<in> set (listNodes_inner ch)" by simp
    ultimately have "\<exists>c \<in> set cs. ch \<in> set (listNodes_inner c)" by blast
    then show ?thesis by simp
  next
    case False
    with Node.prems obtain c where "c \<in> set cs" "x \<in> set (listNodes_inner c)" by auto
    with Node.IH Node.prems(2) have "ch \<in> set (listNodes_inner c)" by blast
    with \<open>c \<in> set cs\<close> show ?thesis by auto
  qed
qed

lemma cache_ok_for_upd_node:
  "cache_ok_for r c \<Longrightarrow> x \<in> set (listNodes_inner r) \<Longrightarrow> cache_ok_for r (c(nid x \<mapsto> Some x))"
  by (simp add: cache_ok_for_def)

lemma cache_ok_for_upd_null:
  "cache_ok_for r c \<Longrightarrow> k \<notin> nid ` set (listNodes_inner r) \<Longrightarrow> cache_ok_for r (c(k \<mapsto> None))"
  by (simp add: cache_ok_for_def)

lemma cache_ok_for_fold_children:
  "cache_ok_for r c \<Longrightarrow> set cs \<subseteq> set (listNodes_inner r) \<Longrightarrow>
     cache_ok_for r (fold (\<lambda>child c. c(nid child \<mapsto> Some child)) cs c)"
  by (induction cs arbitrary: c) (simp_all add: cache_ok_for_upd_node)

lemma cache_ok_for_get_inner:
  assumes "cache_ok_for r c"
  shows "cache_ok_for r (snd (get_inner i r c))"
  unfolding cache_ok_for_def
proof
  fix k
  from assms have ck: "case c k of None \<Rightarrow> True
          | Some None \<Rightarrow> k \<notin> nid ` set (listNodes_inner r)
          | Some (Some x) \<Rightarrow> x \<in> set (listNodes_inner r) \<and> nid x = k"
    by (simp add: cache_ok_for_def)
  from get_inner_cache(1) [of i r c k] ck
  show "case snd (get_inner i r c) k of None \<Rightarrow> True
          | Some None \<Rightarrow> k \<notin> nid ` set (listNodes_inner r)
          | Some (Some x) \<Rightarrow> x \<in> set (listNodes_inner r) \<and> nid x = k"
    by (auto split: option.splits)
qed

lemma find_distinct_key:
  "distinct (map f xs) \<Longrightarrow> x \<in> set xs \<Longrightarrow> List.find (\<lambda>y. f y = f x) xs = Some x"
  by (induction xs) (auto simp: image_iff)

lemma children_subset_listNodes_inner:
  "x \<in> set (listNodes_inner r) \<Longrightarrow> set (children x) \<subseteq> set (listNodes_inner r)"
  using children_in_listNodes_inner by blast

lemma get_direct:
  assumes al: "idAliases t i = None" and ok: "cache_ok t"
  shows "\<exists>r t'. get (Suc n) t (Some i) = Some (r, t') \<and> cache_only t t' \<and> cache_ok t' \<and>
           (case r of None \<Rightarrow> i \<notin> nid ` set (listNodes t)
                    | Some x \<Rightarrow> x \<in> set (listNodes t) \<and> nid x = i) \<and>
           (distinct (map nid (listNodes t)) \<longrightarrow> r = lookup_node t i)"
proof -
  define node_t1 where "node_t1 =
     (case nodeCache t i of
        Some cached \<Rightarrow> (cached, t)
      | None \<Rightarrow> (case get_inner i (root t) (nodeCache t) of (r, c) \<Rightarrow> (r, t\<lparr>nodeCache := c\<rparr>)))"
  obtain node t1 where nt: "node_t1 = (node, t1)" by (cases node_t1)
  have t1: "cache_only t t1 \<and> cache_ok t1 \<and>
            (case node of None \<Rightarrow> i \<notin> nid ` set (listNodes t)
                        | Some x \<Rightarrow> x \<in> set (listNodes t) \<and> nid x = i)"
  proof (cases "nodeCache t i")
    case None
    obtain r c where g: "get_inner i (root t) (nodeCache t) = (r, c)"
      by (cases "get_inner i (root t) (nodeCache t)")
    from g have r: "r = List.find (\<lambda>x. nid x = i) (listNodes_inner (root t))"
      using get_inner_result(1) [of i "root t" "nodeCache t"] by simp
    from g ok have c: "cache_ok_for (root t) c"
      using cache_ok_for_get_inner [of "root t" "nodeCache t" i] by (simp add: cache_ok_def)
    from None g nt have "node = r" "t1 = t\<lparr>nodeCache := c\<rparr>" by (simp_all add: node_t1_def)
    with r c show ?thesis
      by (auto simp: cache_only_def cache_ok_def listNodes_def find_None_iff find_Some_iff
               split: option.splits)
  next
    case (Some cached)
    with nt have "node = cached" "t1 = t" by (simp_all add: node_t1_def)
    moreover from ok have "case nodeCache t i of None \<Rightarrow> True
          | Some None \<Rightarrow> i \<notin> nid ` set (listNodes_inner (root t))
          | Some (Some x) \<Rightarrow> x \<in> set (listNodes_inner (root t)) \<and> nid x = i"
      by (simp add: cache_ok_def cache_ok_for_def)
    moreover have "cache_only t t" by (simp add: cache_only_def exI [of _ "nodeCache t"])
    ultimately show ?thesis using Some ok
      by (auto simp: listNodes_def split: option.splits)
  qed
  have g: "get (Suc n) t (Some i) =
      (case node of
         None \<Rightarrow> Some (None, t1\<lparr>nodeCache := (nodeCache t1)(i \<mapsto> None)\<rparr>)
       | Some nd \<Rightarrow>
           Some (Some nd, t1\<lparr>nodeCache :=
              fold (\<lambda>child c. c(nid child \<mapsto> Some child)) (children nd) (nodeCache t1)\<rparr>))"
    using al nt by (simp add: node_t1_def)
  from t1 have rt: "root t1 = root t" by (auto simp: cache_only_def)
  show ?thesis
  proof (cases node)
    case None
    let ?t' = "t1\<lparr>nodeCache := (nodeCache t1)(i \<mapsto> None)\<rparr>"
    from None g have "get (Suc n) t (Some i) = Some (None, ?t')" by simp
    moreover from t1 have "cache_only t ?t'"
      by (auto simp: cache_only_def)
    moreover from t1 None rt have "cache_ok ?t'"
      by (simp add: cache_ok_def listNodes_def cache_ok_for_upd_null)
    moreover from t1 None have "i \<notin> nid ` set (listNodes t)" by simp
    moreover from this have "lookup_node t i = None"
      by (auto simp: lookup_node_def find_None_iff)
    ultimately show ?thesis by auto
  next
    case (Some nd)
    let ?t' = "t1\<lparr>nodeCache :=
              fold (\<lambda>child c. c(nid child \<mapsto> Some child)) (children nd) (nodeCache t1)\<rparr>"
    from Some g have "get (Suc n) t (Some i) = Some (Some nd, ?t')" by simp
    moreover from t1 have "cache_only t ?t'"
      by (auto simp: cache_only_def)
    moreover from t1 Some have nd: "nd \<in> set (listNodes t)" "nid nd = i" by simp_all
    moreover from t1 nd rt have "cache_ok ?t'"
      by (simp add: cache_ok_def listNodes_def cache_ok_for_fold_children
            children_subset_listNodes_inner)
    moreover from nd have "distinct (map nid (listNodes t)) \<longrightarrow> lookup_node t i = Some nd"
      using find_distinct_key [of nid "listNodes t" nd] by (auto simp: lookup_node_def)
    ultimately show ?thesis by auto
  qed
qed

lemma cache_only_refl: "cache_only t t"
  by (simp add: cache_only_def exI [of _ "nodeCache t"])

lemma cache_only_trans: "cache_only t t1 \<Longrightarrow> cache_only t1 t2 \<Longrightarrow> cache_only t t2"
  by (auto simp: cache_only_def)

lemma cache_only_fields:
  "cache_only t t' \<Longrightarrow> root t' = root t \<and> idAliases t' = idAliases t \<and> self t' = self t \<and>
     structureHashCache t' = structureHashCache t \<and> heightCache t' = heightCache t"
  by (auto simp: cache_only_def)

lemma cache_only_listNodes: "cache_only t t' \<Longrightarrow> listNodes t' = listNodes t"
  by (auto simp: cache_only_def listNodes_def)

lemma get_resolves:
  assumes ok: "cache_ok t"
  shows "resolveAlias k (idAliases t) i = Some j \<Longrightarrow> k \<le> m \<Longrightarrow>
     \<exists>r t'. get m t (Some i) = Some (r, t') \<and> cache_only t t' \<and> cache_ok t' \<and>
           (case r of None \<Rightarrow> j \<notin> nid ` set (listNodes t)
                    | Some x \<Rightarrow> x \<in> set (listNodes t) \<and> nid x = j) \<and>
           (distinct (map nid (listNodes t)) \<longrightarrow> r = lookup_node t j)"
proof (induction k arbitrary: m i)
  case 0
  then show ?case by simp
next
  case (Suc k)
  from Suc.prems(2) obtain m' where m: "m = Suc m'" "k \<le> m'" by (cases m) auto
  show ?case
  proof (cases "idAliases t i")
    case None
    with Suc.prems(1) have "j = i" by simp
    from get_direct [OF None ok, of m'] show ?thesis
      unfolding \<open>j = i\<close> m(1) .
  next
    case (Some i')
    with Suc.prems(1) have "resolveAlias k (idAliases t) i' = Some j" by simp
    from Suc.IH [OF this m(2)] Some m show ?thesis by simp
  qed
qed

text \<open>
  Claim C1. \<^verbatim>\<open>get(null)\<close> returns \<^verbatim>\<open>null\<close>. For an identifier \<open>i\<close> whose alias
  chain ends at \<open>j\<close> within the depth given, \<^verbatim>\<open>get\<close> returns, and it returns either
  \<^verbatim>\<open>null\<close>, exactly when no node of the tree carries \<open>j\<close>, or a node of the tree
  whose identifier is \<open>j\<close>. This holds in every state of the node cache that lookups
  can have produced, and the call leaves such a state behind and changes nothing but the
  cache. When the identifiers of the tree are unique, the result is the node that a
  depth-first search for \<open>j\<close> finds, whatever the cache holds: neither the memoized
  nodes nor the known-absent marker change it.
\<close>

theorem get_returns_resolved_node:
  assumes "cache_ok t" and "resolveAlias k (idAliases t) i = Some j" and "k \<le> m"
  shows "get (Suc n) t None = Some (None, t) \<and>
     (\<exists>r t'. get m t (Some i) = Some (r, t') \<and>
        (case r of None \<Rightarrow> j \<notin> nid ` set (listNodes t)
                 | Some x \<Rightarrow> x \<in> set (listNodes t) \<and> nid x = j) \<and>
        (distinct (map nid (listNodes t)) \<longrightarrow> r = lookup_node t j) \<and>
        cache_only t t' \<and> cache_ok t')"
  using get_resolves [OF assms] by auto

theorem get_returns_resolved_node_witness:
  "cache_ok aliased \<and> resolveAlias 2 (idAliases aliased) 5 = Some 3 \<and> (2::nat) \<le> 2 \<and>
   map_option fst (get 2 aliased None) = Some None \<and>
   map_option fst (get 2 aliased (Some 5)) = Some (Some scenario_C) \<and>
   map_option fst (get 2 aliased (Some 4)) = Some None \<and>
   map_option fst (get 2 (snd (the (get 2 aliased (Some 4)))) (Some 5)) = Some (Some scenario_C)"
proof -
  have ok: "cache_ok aliased"
    by (simp add: cache_ok_def cache_ok_for_def scenario_defs aliased_def)
  have r: "resolveAlias 2 (idAliases aliased) 5 = Some 3"
    by (simp add: aliased_def numeral_eq_Suc)
  have r4: "resolveAlias 2 (idAliases aliased) 4 = Some 4"
    by (simp add: aliased_def numeral_eq_Suc)
  have l: "lookup_node aliased 3 = Some scenario_C" "lookup_node aliased 4 = None"
    "distinct (map nid (listNodes aliased))"
    by (simp_all add: lookup_node_def listNodes_def aliased_def scenario_defs)
  from get_returns_resolved_node [OF ok r order_refl, of 1]
  have n: "map_option fst (get 2 aliased None) = Some None" by (simp add: numeral_2_eq_2)
  from get_returns_resolved_node [OF ok r order_refl, of 0] l
  have a: "map_option fst (get 2 aliased (Some 5)) = Some (Some scenario_C)" by auto
  from get_returns_resolved_node [OF ok r4 order_refl, of 0] l obtain t' where
    b: "get 2 aliased (Some 4) = Some (None, t')" "cache_only aliased t'" "cache_ok t'" by auto
  from b(2) have same: "idAliases t' = idAliases aliased" "listNodes t' = listNodes aliased"
    by (simp_all add: cache_only_fields cache_only_listNodes)
  from l same have l': "lookup_node t' 3 = Some scenario_C" "distinct (map nid (listNodes t'))"
    by (simp_all add: lookup_node_def)
  from r same have r': "resolveAlias 2 (idAliases t') 5 = Some 3" by simp
  from get_returns_resolved_node [OF b(3) r' order_refl, of 0] l'
  have "map_option fst (get 2 t' (Some 5)) = Some (Some scenario_C)" by auto
  with b(1)
  have c: "map_option fst (get 2 (snd (the (get 2 aliased (Some 4)))) (Some 5))
             = Some (Some scenario_C)" by simp
  from n a b(1) c ok r show ?thesis by simp
qed

section \<open>The structure hash\<close>

lemma fold_hash_inner_skeleton:
  fixes cs :: "'a node list" and cs' :: "'b node list"
  assumes "\<And>x (y :: 'b node) r. x \<in> set cs \<Longrightarrow> skeleton x = skeleton y \<Longrightarrow>
             hash_inner x r = hash_inner y r"
  shows "map skeleton cs = map skeleton cs' \<Longrightarrow> fold hash_inner cs r = fold hash_inner cs' r"
  using assms
proof (induction cs arbitrary: cs' r)
  case Nil
  then show ?case by simp
next
  case (Cons c cs)
  from Cons.prems(1) obtain c' cs1 where cs': "cs' = c' # cs1" "skeleton c = skeleton c'"
    "map skeleton cs = map skeleton cs1" by (cases cs') auto
  from Cons.prems(2) [of c c'] cs' have "hash_inner c r = hash_inner c' r" by simp
  moreover from Cons.IH [OF cs'(3)] Cons.prems(2)
  have "fold hash_inner cs (hash_inner c' r) = fold hash_inner cs1 (hash_inner c' r)" by simp
  ultimately show ?case using cs' by simp
qed

lemma hash_inner_skeleton:
  fixes x :: "'a node" and y :: "'b node"
  shows "skeleton x = skeleton y \<Longrightarrow> hash_inner x r = hash_inner y r"
proof (induction x arbitrary: y r)
  case (Node a j d p cs)
  obtain a' j' d' p' cs' where y: "y = Node a' j' d' p' cs'" by (cases y)
  with Node.prems have j: "j' = j" and m: "map skeleton cs = map skeleton cs'" by simp_all
  have "fold hash_inner cs r0 = fold hash_inner cs' r0" for r0
    by (rule fold_hash_inner_skeleton [OF _ m]) (rule Node.IH)
  with y j show ?case by simp
qed

lemma getStructureHash_cache_ok:
  "hash_cache_ok t \<Longrightarrow> hash_cache_ok (snd (getStructureHash t))"
  by (auto simp: hash_cache_ok_def getStructureHash_def Let_def split: option.splits)

text \<open>
  Claim C8. Two trees whose roots have the same shape and the same identifiers, node by
  node and in the same order of children, have the same structure hash, whatever their
  payloads (the two trees may even have payloads of different types); and a second call
  on a tree returns what the first call returned. The hash cache of each tree is unset
  or holds what this function stored.
\<close>

theorem structure_hash_ignores_payload:
  fixes t1 :: "'a gametree" and t2 :: "'b gametree"
  assumes "skeleton (root t1) = skeleton (root t2)"
    and "hash_cache_ok t1" and "hash_cache_ok t2"
  shows "fst (getStructureHash t1) = fst (getStructureHash t2) \<and>
         fst (getStructureHash (snd (getStructureHash t1))) = fst (getStructureHash t1)"
proof -
  from assms(1) have "hash_inner (root t1) 5381 = hash_inner (root t2) 5381"
    by (rule hash_inner_skeleton)
  with assms(2,3) show ?thesis
    by (auto simp: hash_cache_ok_def getStructureHash_def Let_def split: option.splits)
qed

lemma scenario_structure_hash: "fst (getStructureHash scenario) = ''207195621''"
  apply (simp add: scenario_defs getStructureHash_def hash_def JSON_stringify_def digits.simps)
  apply code_simp
  done

theorem structure_hash_ignores_payload_witness:
  "skeleton (root scenario) = skeleton (root payload_tree) \<and>
   hash_cache_ok scenario \<and> hash_cache_ok payload_tree \<and>
   fst (getStructureHash payload_tree) = ''207195621'' \<and>
   fst (getStructureHash (snd (getStructureHash scenario))) = ''207195621''"
proof -
  have s: "skeleton (root scenario) = skeleton (root payload_tree)"
    by (simp add: scenario_defs payload_tree_def)
  have o: "hash_cache_ok scenario" "hash_cache_ok payload_tree"
    by (simp_all add: hash_cache_ok_def scenario_defs payload_tree_def)
  from structure_hash_ignores_payload [OF s o] scenario_structure_hash s o
  show ?thesis by simp
qed

section \<open>Paths from the root\<close>

lemma path_None_iff:
  fixes r :: "'v node" and cs :: "'v node list"
  shows "path_to r i = None \<longleftrightarrow> i \<notin> nid ` set (listNodes_inner r)"
  and "path_in cs i = None \<longleftrightarrow> i \<notin> nid ` set (concat (map listNodes_inner cs))"
  by (induction r i and cs i rule: path_to_path_in.induct) (auto split: option.splits)

lemma path_Some:
  fixes r :: "'v node" and cs :: "'v node list"
  shows "path_to r i = Some ps \<Longrightarrow>
     ps \<noteq> [] \<and> hd ps = r \<and> nid (last ps) = i \<and> set ps \<subseteq> set (listNodes_inner r)"
  "path_in cs i = Some ps \<Longrightarrow>
     ps \<noteq> [] \<and> hd ps \<in> set cs \<and> path_to (hd ps) i = Some ps \<and> nid (last ps) = i \<and>
     set ps \<subseteq> set (concat (map listNodes_inner cs))"
proof (induction r i and cs i arbitrary: ps and ps rule: path_to_path_in.induct)
  case (1 a j d p cs i)
  show ?case
  proof (cases "j = i")
    case True
    with 1(2) show ?thesis by auto
  next
    case False
    with 1(2) obtain qs where qs: "path_in cs i = Some qs" "ps = Node a j d p cs # qs"
      by auto
    from 1(1) [OF False qs(1)] qs(2) show ?thesis by auto
  qed
next
  case (2 i)
  then show ?case by simp
next
  case (3 c cs i)
  show ?case
  proof (cases "path_to c i")
    case None
    with 3(3) have "path_in cs i = Some ps" by simp
    from 3(2) [OF None this] show ?thesis by auto
  next
    case (Some qs)
    with 3(3) have "qs = ps" by simp
    with 3(1) [of ps] Some show ?thesis by auto
  qed
qed

lemma path_length:
  fixes r :: "'v node" and cs :: "'v node list"
  shows "path_to r i = Some ps \<Longrightarrow> length ps \<le> length (listNodes_inner r)"
  and "path_in cs i = Some ps \<Longrightarrow> length ps \<le> length (concat (map listNodes_inner cs))"
proof (induction r i and cs i arbitrary: ps and ps rule: path_to_path_in.induct)
  case (1 a j d p cs i)
  show ?case
  proof (cases "j = i")
    case True
    with 1(2) show ?thesis by auto
  next
    case False
    with 1(2) obtain qs where qs: "path_in cs i = Some qs" "ps = Node a j d p cs # qs"
      by auto
    from 1(1) [OF False qs(1)] qs(2) show ?thesis by simp
  qed
next
  case (2 i)
  then show ?case by simp
next
  case (3 c cs i)
  show ?case
  proof (cases "path_to c i")
    case None
    with 3(3) have "path_in cs i = Some ps" by simp
    from 3(2) [OF None this] show ?thesis by simp
  next
    case (Some qs)
    with 3(3) have "qs = ps" by simp
    with 3(1) [of ps] Some show ?thesis by simp
  qed
qed

lemma path_prefix:
  fixes r :: "'v node" and cs :: "'v node list"
  shows "distinct (map nid (listNodes_inner r)) \<Longrightarrow> path_to r i = Some (qs @ [p, n]) \<Longrightarrow>
     path_to r (nid p) = Some (qs @ [p]) \<and> n \<in> set (children p)"
  and "distinct (map nid (concat (map listNodes_inner cs))) \<Longrightarrow> path_in cs i = Some (qs @ [p, n]) \<Longrightarrow>
     path_in cs (nid p) = Some (qs @ [p]) \<and> n \<in> set (children p)"
proof (induction r i and cs i arbitrary: qs and qs rule: path_to_path_in.induct)
  case (1 a j d pp cs i)
  let ?r = "Node a j d pp cs"
  from 1(3) have ji: "j \<noteq> i" by (auto split: if_splits)
  with 1(3) obtain ps' where ps': "path_in cs i = Some ps'" "?r # ps' = qs @ [p, n]" by auto
  from 1(2) have dc: "distinct (map nid (concat (map listNodes_inner cs)))" by simp
  show ?case
  proof (cases qs)
    case Nil
    with ps' have e: "p = ?r" "ps' = [n]" by simp_all
    with path_Some(2) [OF ps'(1)] have "n \<in> set cs" by simp
    with e Nil show ?thesis by simp
  next
    case (Cons q qs')
    with ps' have e: "q = ?r" "ps' = qs' @ [p, n]" by simp_all
    from 1(1) [OF ji dc] ps'(1) e(2)
    have ih: "path_in cs (nid p) = Some (qs' @ [p])" "n \<in> set (children p)" by simp_all
    from path_Some(2) [OF ps'(1)] e(2) have "p \<in> set (concat (map listNodes_inner cs))" by auto
    with 1(2) have "nid p \<noteq> j" by auto
    with ih Cons e show ?thesis by simp
  qed
next
  case (2 i)
  then show ?case by simp
next
  case (3 c cs i)
  from 3(3) have dc: "distinct (map nid (listNodes_inner c))"
    and dcs: "distinct (map nid (concat (map listNodes_inner cs)))"
    and disj: "nid ` set (listNodes_inner c) \<inter> nid ` set (concat (map listNodes_inner cs)) = {}"
    by auto
  show ?case
  proof (cases "path_to c i")
    case None
    with 3(4) have pin: "path_in cs i = Some (qs @ [p, n])" by simp
    from 3(2) [OF None dcs pin]
    have ih: "path_in cs (nid p) = Some (qs @ [p])" "n \<in> set (children p)" by simp_all
    from path_Some(2) [OF pin] have "p \<in> set (concat (map listNodes_inner cs))" by auto
    with disj have "nid p \<notin> nid ` set (listNodes_inner c)" by blast
    then have "path_to c (nid p) = None" by (simp add: path_None_iff)
    with ih show ?thesis by simp
  next
    case (Some ps)
    with 3(4) have "path_to c i = Some (qs @ [p, n])" by simp
    from 3(1) [OF dc this] show ?thesis by simp
  qed
qed

lemma parents_ok_child:
  "parents_ok r \<Longrightarrow> p \<in> set (listNodes_inner r) \<Longrightarrow> n \<in> set (children p) \<Longrightarrow>
     parentId n = Some (nid p)"
proof (induction r)
  case (Node a j d pp cs)
  show ?case
  proof (cases "p = Node a j d pp cs")
    case True
    with Node.prems show ?thesis by auto
  next
    case False
    with Node.prems obtain c where c: "c \<in> set cs" "p \<in> set (listNodes_inner c)" by auto
    with Node.prems(1) have "parents_ok c" by simp
    from Node.IH [OF c(1) this c(2) Node.prems(3)] show ?thesis .
  qed
qed

section \<open>Lookups in a well-formed tree\<close>

lemma wf_tree_cache_only:
  "wf_tree t \<Longrightarrow> cache_only t t' \<Longrightarrow> cache_ok t' \<Longrightarrow> wf_tree t'"
  by (auto simp: wf_tree_def tree_ok_def aliases_ok_def cache_only_def listNodes_def)

lemma aliases_end_cache_only:
  "aliases_end K t \<Longrightarrow> cache_only t t' \<Longrightarrow> aliases_end K t'"
  by (auto simp: aliases_end_def cache_only_def)

lemma lookup_cache_only:
  "cache_only t t' \<Longrightarrow> lookup K t' io = lookup K t io"
  by (auto simp: lookup_def lookup_node_def listNodes_def cache_only_def split: option.splits)

lemma aliases_end_pos: "aliases_end K t \<Longrightarrow> 0 < K"
  by (cases K) (auto simp: aliases_end_def)

lemma lookup_node_of_node:
  "distinct (map nid (listNodes t)) \<Longrightarrow> x \<in> set (listNodes t) \<Longrightarrow> lookup_node t (nid x) = Some x"
  using find_distinct_key [of nid "listNodes t" x] by (simp add: lookup_node_def)

lemma lookup_of_node:
  assumes "wf_tree t" and "aliases_end K t" and "x \<in> set (listNodes t)"
  shows "lookup K t (Some (nid x)) = Some x"
proof -
  from assms(2) obtain K' where K: "K = Suc K'" using aliases_end_pos [of K t] by (cases K) auto
  from assms(1,3) have "idAliases t (nid x) = None" by (simp add: wf_tree_def aliases_ok_def)
  with K have "resolveAlias K (idAliases t) (nid x) = Some (nid x)" by simp
  moreover from assms(1,3) have "lookup_node t (nid x) = Some x"
    by (simp add: wf_tree_def tree_ok_def lookup_node_of_node)
  ultimately show ?thesis by (simp add: lookup_def)
qed

lemma lookup_Some_in_tree:
  "lookup K t io = Some n \<Longrightarrow> n \<in> set (listNodes t)"
  by (auto simp: lookup_def lookup_node_def find_Some_iff split: option.splits)

lemma returnsI:
  "res = Some (r, t') \<Longrightarrow> cache_only t t' \<Longrightarrow> wf_tree t' \<Longrightarrow> returns res t r"
  by (auto simp: returns_def)

lemma returns_step:
  "returns res t' r \<Longrightarrow> cache_only t t' \<Longrightarrow> returns res t r"
  by (auto simp: returns_def intro: cache_only_trans)

lemma get_lookup:
  assumes wf: "wf_tree t" and ae: "aliases_end K t" and m: "K \<le> m"
  shows "returns (get m t io) t (lookup K t io)"
proof (cases io)
  case None
  from ae m obtain m' where "m = Suc m'" using aliases_end_pos [of K t] by (cases m) auto
  with None wf show ?thesis by (simp add: returns_def lookup_def cache_only_refl)
next
  case (Some i)
  from ae obtain j where j: "resolveAlias K (idAliases t) i = Some j"
    by (auto simp: aliases_end_def)
  from wf have ok: "cache_ok t" and d: "distinct (map nid (listNodes t))"
    by (simp_all add: wf_tree_def tree_ok_def)
  from get_resolves [OF ok j m] d obtain t' where
    "get m t (Some i) = Some (lookup_node t j, t')" "cache_only t t'" "cache_ok t'" by auto
  with Some j wf show ?thesis
    by (auto simp: returns_def lookup_def intro: wf_tree_cache_only)
qed

lemma get_lookupE:
  assumes "wf_tree t" and "aliases_end K t" and "K \<le> m"
  obtains t' where "get m t io = Some (lookup K t io, t')" and "cache_only t t'"
    and "wf_tree t'" and "aliases_end K t'"
  using get_lookup [OF assms, of io] assms(2)
  by (auto simp: returns_def intro: aliases_end_cache_only)

lemma scenario_wf: "wf_tree scenario" "aliases_end 1 scenario"
  by (simp_all add: wf_tree_def tree_ok_def aliases_ok_def aliases_end_def cache_ok_def
        cache_ok_for_def listNodes_def scenario_defs)

text \<open>
  A tree as the constructor builds it has the empty node cache, the empty alias table and
  no cached hash, so it meets the conditions on the caches and on the alias table; a
  lookup keeps them.
\<close>

lemma constructor_invariants:
  "cache_ok (GameTree_new fresh fresh_root g mg r) \<and>
   hash_cache_ok (GameTree_new fresh fresh_root g mg r) \<and>
   aliases_ok (GameTree_new fresh fresh_root g mg r) \<and>
   aliases_end 1 (GameTree_new fresh fresh_root g mg r)"
  by (auto simp: GameTree_new_def cache_ok_def cache_ok_for_def hash_cache_ok_def
        aliases_ok_def aliases_end_def Let_def split: option.splits prod.splits)

section \<open>Navigation\<close>

lemma distinct_nid_eq:
  "distinct (map nid xs) \<Longrightarrow> x \<in> set xs \<Longrightarrow> y \<in> set xs \<Longrightarrow> nid x = nid y \<Longrightarrow> x = y"
  by (meson distinct_map inj_onD)

lemma path_of_node:
  assumes "wf_tree t" and "n \<in> set (listNodes t)"
  obtains ps where "path_to (root t) (nid n) = Some ps" and "last ps = n" and "ps \<noteq> []"
    and "hd ps = root t" and "set ps \<subseteq> set (listNodes t)"
proof -
  from assms(2) have "path_to (root t) (nid n) \<noteq> None"
    by (simp add: path_None_iff listNodes_def)
  then obtain ps where ps: "path_to (root t) (nid n) = Some ps" by auto
  from path_Some(1) [OF ps] have p: "ps \<noteq> []" "hd ps = root t" "nid (last ps) = nid n"
    "set ps \<subseteq> set (listNodes t)" by (simp_all add: listNodes_def)
  then have "last ps \<in> set (listNodes t)" by auto
  with assms p(3) have "last ps = n"
    by (auto simp: wf_tree_def tree_ok_def intro: distinct_nid_eq)
  with ps p show ?thesis using that by blast
qed

lemma path_last:
  assumes "wf_tree t" and "n \<in> set (listNodes t)" and "path_to (root t) (nid n) = Some ps"
  shows "last ps = n" and "ps \<noteq> []" and "hd ps = root t" and "set ps \<subseteq> set (listNodes t)"
  using path_of_node [OF assms(1,2)] assms(3) by auto

lemma path_parent:
  assumes wf: "wf_tree t" and ae: "aliases_end K t"
    and ps: "path_to (root t) i = Some (qs @ [p, n])"
  shows "path_to (root t) (nid p) = Some (qs @ [p])" and "parentId n = Some (nid p)"
    and "n \<in> set (children p)" and "lookup K t (Some (nid p)) = Some p"
    and "p \<in> set (listNodes t)"
proof -
  from wf have d: "distinct (map nid (listNodes_inner (root t)))" and po: "parents_ok (root t)"
    by (simp_all add: wf_tree_def tree_ok_def listNodes_def)
  from path_prefix(1) [OF d ps]
  show pp: "path_to (root t) (nid p) = Some (qs @ [p])" and ch: "n \<in> set (children p)"
    by simp_all
  from path_Some(1) [OF ps] show pin: "p \<in> set (listNodes t)" by (simp add: listNodes_def)
  with po ch show "parentId n = Some (nid p)"
    by (auto simp: listNodes_def intro: parents_ok_child)
  from wf ae pin show "lookup K t (Some (nid p)) = Some p" by (rule lookup_of_node)
qed

lemma path_singleton:
  assumes wf: "wf_tree t" and ps: "path_to (root t) i = Some [n]"
  shows "n = root t" and "parentId n = None"
proof -
  from path_Some(1) [OF ps] show "n = root t" by simp
  with wf show "parentId n = None" by (simp add: wf_tree_def tree_ok_def)
qed

lemma navigate_absent:
  assumes "wf_tree t" and "aliases_end K t" and "lookup K t io = None" and "K < m"
  shows "returns (navigate m t io step cur) t (Inr None)"
proof -
  from assms(4) obtain m' where m: "m = Suc m'" "K \<le> m'" by (cases m) auto
  from get_lookupE [OF assms(1,2) m(2), of io] obtain t' where
    "get m' t io = Some (lookup K t io, t')" "cache_only t t'" "wf_tree t'" by blast
  with assms(3) m show ?thesis by (simp add: returns_def)
qed

lemma navigate_up:
  "wf_tree t \<Longrightarrow> aliases_end K t \<Longrightarrow> lookup K t io = Some n \<Longrightarrow>
   path_to (root t) (nid n) = Some ps \<Longrightarrow> K + k < m \<Longrightarrow>
   returns (navigate m t io (- int k) cur) t
     (Inr (if k < length ps then Some (ps ! (length ps - 1 - k)) else None))"
proof (induction k arbitrary: t io n ps m cur)
  case 0
  from 0(5) obtain m' where m: "m = Suc m'" "K \<le> m'" by (cases m) auto
  from get_lookupE [OF 0(1,2) m(2), of io] obtain t' where
    g: "get m' t io = Some (lookup K t io, t')" "cache_only t t'" "wf_tree t'" by blast
  from 0(3) have "n \<in> set (listNodes t)" by (rule lookup_Some_in_tree)
  from path_last [OF 0(1) this 0(4)] have "last ps = n" "ps \<noteq> []" by simp_all
  then have "ps ! (length ps - 1) = n" by (simp add: last_conv_nth)
  with g 0(3) m \<open>ps \<noteq> []\<close> show ?case by (simp add: returns_def)
next
  case (Suc k)
  from Suc.prems(5) obtain m' where m: "m = Suc m'" "K \<le> m'" "K + k < m'" by (cases m) auto
  from get_lookupE [OF Suc.prems(1,2) m(2), of io] obtain t1 where
    g: "get m' t io = Some (lookup K t io, t1)" "cache_only t t1" "wf_tree t1" "aliases_end K t1"
    by blast
  from g(2) have rt: "root t1 = root t" "listNodes t1 = listNodes t"
    by (simp_all add: cache_only_fields cache_only_listNodes)
  from Suc.prems(3) have nin: "n \<in> set (listNodes t)" by (rule lookup_Some_in_tree)
  from path_last [OF Suc.prems(1) nin Suc.prems(4)] have l: "last ps = n" "ps \<noteq> []" by simp_all
  have nav: "navigate m t io (- int (Suc k)) cur = navigate m' t1 (parentId n) (- int k) None"
    using g(1) Suc.prems(3) m(1) by simp
  show ?case
  proof (cases "length ps = 1")
    case True
    with l have "ps = [n]" by (cases ps) auto
    with Suc.prems(1,4) have "parentId n = None" using path_singleton by blast
    then have "lookup K t1 (parentId n) = None" by (simp add: lookup_def)
    from navigate_absent [OF g(3,4) this, of m' "- int k" None] m(3)
    have "returns (navigate m' t1 (parentId n) (- int k) None) t1 (Inr None)" by simp
    with nav True g(2) show ?thesis by (auto intro: returns_step)
  next
    case False
    with l obtain qs p where ps: "ps = qs @ [p, n]"
      by (metis append_butlast_last_id append_Cons append_Nil append_assoc butlast.simps(2)
            length_Cons list.size(3) One_nat_def list.exhaust)
    from Suc.prems(4) ps rt have pt: "path_to (root t1) (nid n) = Some (qs @ [p, n])" by simp
    note pp = path_parent [OF g(3,4) pt]
    from Suc.IH [OF g(3,4) pp(4) pp(1) m(3), of None]
    have "returns (navigate m' t1 (Some (nid p)) (- int k) None) t1
            (Inr (if k < length (qs @ [p]) then Some ((qs @ [p]) ! (length (qs @ [p]) - 1 - k))
                  else None))" .
    moreover have "(if k < length (qs @ [p]) then Some ((qs @ [p]) ! (length (qs @ [p]) - 1 - k))
                  else None) =
          (if Suc k < length ps then Some (ps ! (length ps - 1 - Suc k)) else None)"
      by (auto simp: ps nth_append)
    ultimately show ?thesis using nav pp(2) g(2) by (auto intro: returns_step)
  qed
qed

lemma descend_cache_only:
  "cache_only t t' \<Longrightarrow> descend K t' c n k = descend K t c n k"
  by (induction k arbitrary: n) (auto simp: lookup_cache_only split: option.splits list.splits)

lemma child_in_tree:
  "n \<in> set (listNodes t) \<Longrightarrow> ch \<in> set (children n) \<Longrightarrow> ch \<in> set (listNodes t)"
  unfolding listNodes_def by (rule children_in_listNodes_inner)

lemma navigate_down:
  "wf_tree t \<Longrightarrow> aliases_end K t \<Longrightarrow> lookup K t io = Some n \<Longrightarrow> K + k < m \<Longrightarrow>
   returns (navigate m t io (int k) (Some c)) t (Inr (descend K t c n k))"
proof (induction k arbitrary: t io n m)
  case 0
  from 0(4) obtain m' where m: "m = Suc m'" "K \<le> m'" by (cases m) auto
  from get_lookupE [OF 0(1,2) m(2), of io] obtain t' where
    g: "get m' t io = Some (lookup K t io, t')" "cache_only t t'" "wf_tree t'" by blast
  with 0(3) m show ?case by (simp add: returns_def)
next
  case (Suc k)
  from Suc.prems(4) obtain m' where m: "m = Suc m'" "K \<le> m'" "K + k < m'" by (cases m) auto
  from get_lookupE [OF Suc.prems(1,2) m(2), of io] obtain t1 where
    g: "get m' t io = Some (lookup K t io, t1)" "cache_only t t1" "wf_tree t1" "aliases_end K t1"
    by blast
  from g(2) have rt: "listNodes t1 = listNodes t"
    by (simp add: cache_only_listNodes)
  from Suc.prems(3) have nin: "n \<in> set (listNodes t)" by (rule lookup_Some_in_tree)
  note dc = descend_cache_only [OF g(2)]
  note lc = lookup_cache_only [OF g(2)]
  show ?case
  proof (cases "c (nid n)")
    case (Some x)
    have nav: "navigate m t io (int (Suc k)) (Some c) = navigate m' t1 (Some x) (int k) (Some c)"
      using g(1) Suc.prems(3) m(1) Some by simp
    show ?thesis
    proof (cases "lookup K t (Some x)")
      case None
      with lc have "lookup K t1 (Some x) = None" by simp
      from navigate_absent [OF g(3,4) this, of m' "int k" "Some c"] m(3)
      have "returns (navigate m' t1 (Some x) (int k) (Some c)) t1 (Inr None)" by simp
      with nav g(2) Some None show ?thesis by (auto intro: returns_step)
    next
      case (Some n')
      with lc have "lookup K t1 (Some x) = Some n'" by simp
      from Suc.IH [OF g(3,4) this m(3)] dc
      have "returns (navigate m' t1 (Some x) (int k) (Some c)) t1 (Inr (descend K t c n' k))"
        by simp
      with nav g(2) Some \<open>c (nid n) = Some x\<close> show ?thesis by (auto intro: returns_step)
    qed
  next
    case None
    show ?thesis
    proof (cases "children n")
      case Nil
      with g Suc.prems(3) m(1) None show ?thesis by (simp add: returns_def)
    next
      case (Cons ch rest)
      have nav: "navigate m t io (int (Suc k)) (Some c)
                   = navigate m' t1 (Some (nid ch)) (int k) (Some c)"
        using g(1) Suc.prems(3) m(1) None Cons by simp
      from nin Cons rt have "ch \<in> set (listNodes t1)" by (auto intro: child_in_tree)
      from lookup_of_node [OF g(3,4) this] have "lookup K t1 (Some (nid ch)) = Some ch" .
      from Suc.IH [OF g(3,4) this m(3)] dc
      have "returns (navigate m' t1 (Some (nid ch)) (int k) (Some c)) t1
              (Inr (descend K t c ch k))" by simp
      with nav g(2) None Cons show ?thesis by (auto intro: returns_step)
    qed
  qed
qed

lemma child_walk_below: "child_walk c n k = Some r \<Longrightarrow> below n k r"
proof (induction k arbitrary: n)
  case 0
  then show ?case by simp
next
  case (Suc k)
  show ?case
  proof (cases "c (nid n)")
    case None
    with Suc.prems obtain ch rest where ch: "children n = ch # rest" "child_walk c ch k = Some r"
      by (cases "children n") auto
    from Suc.IH [OF ch(2)] ch(1) show ?thesis by auto
  next
    case (Some x)
    with Suc.prems obtain ch where ch: "List.find (\<lambda>ch. nid ch = x) (children n) = Some ch"
      "child_walk c ch k = Some r" by (auto split: option.splits)
    from ch(1) have "ch \<in> set (children n)" by (auto simp: find_Some_iff)
    with Suc.IH [OF ch(2)] show ?thesis by auto
  qed
qed

lemma descend_child_walk:
  assumes wf: "wf_tree t" and ae: "aliases_end K t" and cc: "currents_name_children t c"
  shows "n \<in> set (listNodes t) \<Longrightarrow> descend K t c n k = child_walk c n k"
proof (induction k arbitrary: n)
  case 0
  show ?case by simp
next
  case (Suc k)
  show ?case
  proof (cases "c (nid n)")
    case None
    show ?thesis
    proof (cases "children n")
      case Nil
      with None show ?thesis by simp
    next
      case (Cons ch rest)
      with Suc.prems have "ch \<in> set (listNodes t)" by (auto intro: child_in_tree)
      from Suc.IH [OF this] None Cons show ?thesis by simp
    qed
  next
    case (Some x)
    with cc Suc.prems have "x \<in> nid ` set (children n)"
      by (auto simp: currents_name_children_def split: option.splits)
    then have "List.find (\<lambda>ch. nid ch = x) (children n) \<noteq> None"
      by (auto simp: find_None_iff)
    then obtain ch where f: "List.find (\<lambda>ch. nid ch = x) (children n) = Some ch" by auto
    then have ch: "ch \<in> set (children n)" "nid ch = x" by (auto simp: find_Some_iff)
    with Suc.prems have chin: "ch \<in> set (listNodes t)" by (auto intro: child_in_tree)
    from lookup_of_node [OF wf ae chin] ch(2) have "lookup K t (Some x) = Some ch" by simp
    with Suc.IH [OF chin] Some f show ?thesis by simp
  qed
qed

text \<open>
  Claim C4, amended. In a well-formed tree, let the identifier \<open>i\<close> resolve to the node
  \<open>n\<close>, and let \<open>ps\<close> be the path from the root down to \<open>n\<close>. With enough depth for
  the calls, \<^verbatim>\<open>navigate\<close> returns: for step 0 the node \<open>n\<close>; for step \<open>-k\<close> the node
  \<open>k\<close> places before \<open>n\<close> on the path, which is its ancestor \<open>k\<close> levels up, and
  \<^verbatim>\<open>null\<close> when the path has no such place; for step \<open>+k\<close> the node reached after
  \<open>k\<close> steps, where the next node is the node that \<open>currents[node.id]\<close> resolves to
  when the currents have an entry (whichever node of the tree that is, and \<^verbatim>\<open>null\<close>
  when it resolves to none), else the first child, and \<^verbatim>\<open>null\<close> when there is no
  child. When the entries of the currents name children of their nodes, every step goes
  to a child, and a node returned lies exactly \<open>k\<close> edges below \<open>n\<close>.
\<close>

theorem navigate_spec:
  assumes "wf_tree t" and "aliases_end K t" and "lookup K t (Some i) = Some n"
    and "path_to (root t) (nid n) = Some ps" and "K + nat \<bar>step\<bar> < m"
  shows "hd ps = root t \<and> last ps = n \<and>
    returns (navigate m t (Some i) step (Some c)) t
      (Inr (if step = 0 then Some n
            else if step < 0 then
              (if nat (- step) < length ps then Some (ps ! (length ps - 1 - nat (- step)))
               else None)
            else descend K t c n (nat step))) \<and>
    (0 < step \<and> currents_name_children t c \<longrightarrow>
       descend K t c n (nat step) = child_walk c n (nat step) \<and>
       (\<forall>r. child_walk c n (nat step) = Some r \<longrightarrow> below n (nat step) r))"
proof -
  from assms(3) have nin: "n \<in> set (listNodes t)" by (rule lookup_Some_in_tree)
  note pl = path_last [OF assms(1) nin assms(4)]
  have walk: "descend K t c n (nat step) = child_walk c n (nat step) \<and>
       (\<forall>r. child_walk c n (nat step) = Some r \<longrightarrow> below n (nat step) r)"
    if "currents_name_children t c"
    using descend_child_walk [OF assms(1,2) that nin] child_walk_below by blast
  have main: "returns (navigate m t (Some i) step (Some c)) t
      (Inr (if step = 0 then Some n
            else if step < 0 then
              (if nat (- step) < length ps then Some (ps ! (length ps - 1 - nat (- step)))
               else None)
            else descend K t c n (nat step)))"
  proof (cases "step \<le> 0")
    case True
    with assms(5) have "K + nat (- step) < m" by simp
    from navigate_up [OF assms(1-4) this, of "Some c"] True
    have "returns (navigate m t (Some i) step (Some c)) t
            (Inr (if nat (- step) < length ps then Some (ps ! (length ps - 1 - nat (- step)))
                  else None))" by simp
    moreover from pl have "ps ! (length ps - 1) = n" by (simp add: last_conv_nth)
    ultimately show ?thesis using True pl by (cases "step = 0") auto
  next
    case False
    with assms(5) have "K + nat step < m" by simp
    from navigate_down [OF assms(1-3) this, of c] False show ?thesis by simp
  qed
  from main walk pl show ?thesis by blast
qed

theorem navigate_spec_witness:
  "wf_tree scenario \<and> aliases_end 1 scenario \<and>
   lookup 1 scenario (Some 3) = Some scenario_C \<and>
   path_to (root scenario) (nid scenario_C) = Some [scenario_R, scenario_A, scenario_C] \<and>
   1 + nat \<bar>- 2 :: int\<bar> < (5::nat) \<and>
   map_option fst (navigate 5 scenario (Some 3) 0 (Some Map.empty))
     = Some (Inr (Some scenario_C)) \<and>
   map_option fst (navigate 5 scenario (Some 3) (- 2) (Some Map.empty))
     = Some (Inr (Some scenario_R)) \<and>
   map_option fst (navigate 5 scenario (Some 3) (- 3) (Some Map.empty)) = Some (Inr None) \<and>
   currents_name_children scenario [0 \<mapsto> 2] \<and>
   map_option fst (navigate 5 scenario (Some 0) 1 (Some [0 \<mapsto> 2]))
     = Some (Inr (Some scenario_B)) \<and>
   below scenario_R 1 scenario_B \<and>
   map_option fst (navigate 5 scenario (Some 0) 2 (Some [0 \<mapsto> 2])) = Some (Inr None) \<and>
   currents_name_children scenario Map.empty \<and>
   map_option fst (navigate 5 scenario (Some 0) 2 (Some Map.empty))
     = Some (Inr (Some scenario_C)) \<and>
   below scenario_R 2 scenario_C"
proof -
  have l: "lookup 1 scenario (Some 3) = Some scenario_C"
    by (simp add: lookup_def lookup_node_def listNodes_def scenario_defs)
  have l0: "lookup 1 scenario (Some 0) = Some scenario_R"
    by (simp add: lookup_def lookup_node_def listNodes_def scenario_defs)
  have p: "path_to (root scenario) (nid scenario_C) = Some [scenario_R, scenario_A, scenario_C]"
    by (simp add: scenario_defs)
  have p0: "path_to (root scenario) (nid scenario_R) = Some [scenario_R]"
    by (simp add: scenario_defs)
  have cc: "currents_name_children scenario [0 \<mapsto> 2]"
    "currents_name_children scenario Map.empty"
    by (simp_all add: currents_name_children_def listNodes_def scenario_defs)
  have w: "child_walk [0 \<mapsto> 2] scenario_R 1 = Some scenario_B"
    "child_walk [0 \<mapsto> 2] scenario_R 2 = None"
    "child_walk Map.empty scenario_R 2 = Some scenario_C"
    by (simp_all add: numeral_2_eq_2 scenario_defs)
  have z: "map_option fst (navigate 5 scenario (Some 3) 0 (Some Map.empty))
          = Some (Inr (Some scenario_C))"
    using navigate_spec [OF scenario_wf l p, of 0 5 Map.empty]
    by (auto simp: returns_def)
  have a: "map_option fst (navigate 5 scenario (Some 3) (- 2) (Some Map.empty))
          = Some (Inr (Some scenario_R))"
    using navigate_spec [OF scenario_wf l p, of "- 2" 5 Map.empty]
    by (auto simp: returns_def)
  have b: "map_option fst (navigate 5 scenario (Some 3) (- 3) (Some Map.empty))
          = Some (Inr None)"
    using navigate_spec [OF scenario_wf l p, of "- 3" 5 Map.empty]
    by (auto simp: returns_def)
  note s1 = navigate_spec [OF scenario_wf l0 p0, of 1 5 "[0 \<mapsto> 2]"]
  from s1 cc(1) w(1)
  have d: "map_option fst (navigate 5 scenario (Some 0) 1 (Some [0 \<mapsto> 2]))
          = Some (Inr (Some scenario_B))" "below scenario_R 1 scenario_B"
    by (auto simp: returns_def)
  note s2 = navigate_spec [OF scenario_wf l0 p0, of 2 5 "[0 \<mapsto> 2]"]
  from s2 cc(1) w(2)
  have e: "map_option fst (navigate 5 scenario (Some 0) 2 (Some [0 \<mapsto> 2])) = Some (Inr None)"
    by (auto simp: returns_def)
  note s3 = navigate_spec [OF scenario_wf l0 p0, of 2 5 Map.empty]
  from s3 cc(2) w(3)
  have f: "map_option fst (navigate 5 scenario (Some 0) 2 (Some Map.empty))
          = Some (Inr (Some scenario_C))" "below scenario_R 2 scenario_C"
    by (auto simp: returns_def)
  from z a b d e f cc show ?thesis using scenario_wf l p by simp
qed

text \<open>
  Claim C4 as it is stated fails on the scenario tree for the currents that send the
  identifier 1 of A to the identifier 0: \<^verbatim>\<open>navigate(1, 1, {1: 0})\<close> returns the root R,
  which is the parent of A and not a node one edge below it. \<^verbatim>\<open>navigate\<close> looks the
  entry of the currents up in the whole tree and does not ask for a child.
\<close>

theorem navigate_currents_counterexample:
  "map_option fst (navigate 5 scenario (Some 1) 1 (Some [1 \<mapsto> 0]))
     = Some (Inr (Some scenario_R)) \<and>
   lookup 1 scenario (Some 1) = Some scenario_A \<and>
   children scenario_A = [scenario_C] \<and>
   scenario_R \<notin> set (children scenario_A) \<and>
   \<not> below scenario_A 1 scenario_R"
  by (simp add: scenario_defs numeral_eq_Suc lookup_def lookup_node_def listNodes_def)

section \<open>The sequence of a node\<close>

lemma chain_nonempty: "chain n \<noteq> []" "hd (chain n) = n"
  by (cases n; simp)+

lemma chain_single_child: "single_child_chain n (chain n)"
proof (induction n rule: chain.induct)
  case (1 a j d p cs)
  let ?n = "Node a j d p cs"
  show ?case
  proof (cases "\<exists>c. cs = [c]")
    case True
    then obtain c where cs: "cs = [c]" by blast
    from 1 [OF cs refl] have ih: "single_child_chain c (chain c)" .
    have ch: "chain ?n = ?n # chain c" using cs by simp
    have "children ((?n # chain c) ! k) = [(?n # chain c) ! Suc k]"
      if "Suc k < length (?n # chain c)" for k
    proof (cases k)
      case 0
      with cs chain_nonempty [of c] show ?thesis by (simp add: hd_conv_nth)
    next
      case (Suc k')
      with that ih show ?thesis by (simp add: single_child_chain_def)
    qed
    with ih ch show ?thesis
      by (simp add: single_child_chain_def del: chain.simps)
  next
    case False
    then have "chain ?n = [?n]" by (cases cs) (auto split: list.splits)
    moreover from False have "length cs \<noteq> 1" by (cases cs) auto
    ultimately show ?thesis by (simp add: single_child_chain_def del: chain.simps)
  qed
qed

lemma length_concat_member:
  "c \<in> set cs \<Longrightarrow> length (f c) \<le> length (concat (map f cs))"
  by (induction cs) auto

lemma length_listNodes_inner_sub:
  "n \<in> set (listNodes_inner r) \<Longrightarrow> length (listNodes_inner n) \<le> length (listNodes_inner r)"
proof (induction r)
  case (Node a j d p cs)
  show ?case
  proof (cases "n = Node a j d p cs")
    case True
    then show ?thesis by simp
  next
    case False
    with Node.prems obtain c where c: "c \<in> set cs" "n \<in> set (listNodes_inner c)" by auto
    from Node.IH [OF c] length_concat_member [OF c(1), of listNodes_inner]
    show ?thesis by simp
  qed
qed

lemma length_chain: "length (chain n) \<le> length (listNodes_inner n)"
proof (induction n rule: chain.induct)
  case (1 a j d p cs)
  show ?case
  proof (cases "\<exists>c. cs = [c]")
    case True
    then obtain c where cs: "cs = [c]" by blast
    from 1 [OF cs refl] cs show ?thesis by simp
  next
    case False
    then have "chain (Node a j d p cs) = [Node a j d p cs]"
      by (cases cs) (auto split: list.splits)
    then show ?thesis by simp
  qed
qed

lemma getSequence_absent:
  assumes "wf_tree t" and "aliases_end K t" and "lookup K t io = None" and "K < m"
  shows "returns (getSequence m t io) t []"
proof -
  from assms(4) obtain m' where m: "m = Suc m'" "K \<le> m'" by (cases m) auto
  from get_lookupE [OF assms(1,2) m(2), of io] obtain t' where
    "get m' t io = Some (lookup K t io, t')" "cache_only t t'" "wf_tree t'" by blast
  with assms(3) m show ?thesis by (simp add: returns_def)
qed

lemma getSequence_chain:
  "wf_tree t \<Longrightarrow> aliases_end K t \<Longrightarrow> lookup K t io = Some n \<Longrightarrow> K + length (chain n) \<le> m \<Longrightarrow>
   returns (getSequence m t io) t (chain n)"
proof (induction n arbitrary: t io m rule: chain.induct)
  case (1 a j d p cs)
  let ?n = "Node a j d p cs"
  from 1(5) obtain m' where m: "m = Suc m'" "K \<le> m'" by (cases m) auto
  from get_lookupE [OF 1(2,3) m(2), of io] obtain t1 where
    g: "get m' t io = Some (lookup K t io, t1)" "cache_only t t1" "wf_tree t1" "aliases_end K t1"
    by blast
  from 1(4) have nin: "?n \<in> set (listNodes t)" by (rule lookup_Some_in_tree)
  show ?case
  proof (cases "\<exists>c. cs = [c]")
    case True
    then obtain c where cs: "cs = [c]" by blast
    from nin cs g(2) have "c \<in> set (listNodes t1)"
      by (auto simp: cache_only_listNodes intro: child_in_tree)
    from lookup_of_node [OF g(3,4) this] have lc: "lookup K t1 (Some (nid c)) = Some c" .
    from 1(5) cs m have "K + length (chain c) \<le> m'" by simp
    from 1(1) [OF cs refl g(3,4) lc this] obtain t2 where
      s: "getSequence m' t1 (Some (nid c)) = Some (chain c, t2)" "cache_only t1 t2" "wf_tree t2"
      by (auto simp: returns_def)
    from g(1) 1(4) m(1) cs s(1)
    have "getSequence m t io = Some (?n # chain c, t2)" by simp
    with cs g(2) s(2,3) show ?thesis
      by (auto simp: returns_def intro: cache_only_trans)
  next
    case False
    then have ch: "chain ?n = [?n]" by (cases cs) (auto split: list.splits)
    from False g(1) 1(4) m(1) have "getSequence m t io = Some ([?n], t1)"
      by (cases cs) (auto split: list.splits)
    with ch g(2,3) show ?thesis by (simp add: returns_def del: chain.simps)
  qed
qed

text \<open>
  Claim C5. In a well-formed tree and with enough depth for the calls, \<^verbatim>\<open>getSequence\<close>
  of an identifier that resolves to no node (or of \<^verbatim>\<open>null\<close>) yields nothing, and of an
  identifier that resolves to the node \<open>n\<close> it yields the single-child chain from
  \<open>n\<close>: \<open>n\<close> first, every yielded node but the last has exactly the next one as its
  children, and the last one has no child or more than one. The sequence is the same from
  every state of the node cache, so a second run yields what the first one did.
\<close>

theorem getSequence_spec:
  assumes "wf_tree t" and "aliases_end K t" and "K + length (listNodes t) \<le> m"
  shows "returns (getSequence m t io) t (case lookup K t io of None \<Rightarrow> [] | Some n \<Rightarrow> chain n) \<and>
         (\<forall>n. lookup K t io = Some n \<longrightarrow> single_child_chain n (chain n)) \<and>
         (\<forall>t2. cache_only t t2 \<and> cache_ok t2 \<longrightarrow>
            returns (getSequence m t2 io) t2
              (case lookup K t io of None \<Rightarrow> [] | Some n \<Rightarrow> chain n))"
proof -
  have main: "returns (getSequence m t2 io) t2
                (case lookup K t io of None \<Rightarrow> [] | Some n \<Rightarrow> chain n)"
    if c: "cache_only t t2" and ok: "cache_ok t2" for t2
  proof -
    from assms(1) c ok have wf: "wf_tree t2" by (rule wf_tree_cache_only)
    from assms(2) c have ae: "aliases_end K t2" by (rule aliases_end_cache_only)
    note l = lookup_cache_only [OF c, of K io]
    from c have ln: "listNodes t2 = listNodes t" by (rule cache_only_listNodes)
    have "Suc 0 \<le> length (listNodes t)" by (cases "root t") (simp add: listNodes_def)
    with assms(3) have km: "K < m" by linarith
    show ?thesis
    proof (cases "lookup K t io")
      case None
      with getSequence_absent [OF wf ae _ km, of io] l show ?thesis by simp
    next
      case (Some n)
      then have "n \<in> set (listNodes t)" by (rule lookup_Some_in_tree)
      then have "length (listNodes_inner n) \<le> length (listNodes t)"
        by (simp add: listNodes_def length_listNodes_inner_sub)
      with length_chain [of n] assms(3) have "K + length (chain n) \<le> m" by simp
      from getSequence_chain [OF wf ae _ this, of io] l Some show ?thesis by simp
    qed
  qed
  from assms(1) have "cache_ok t" by (simp add: wf_tree_def)
  from main [OF cache_only_refl this] main chain_single_child show ?thesis by blast
qed

theorem getSequence_spec_witness:
  "wf_tree scenario \<and> aliases_end 1 scenario \<and> 1 + length (listNodes scenario) \<le> (5::nat) \<and>
   map_option fst (getSequence 5 scenario (Some 1)) = Some [scenario_A, scenario_C] \<and>
   single_child_chain scenario_A [scenario_A, scenario_C] \<and>
   map_option fst (getSequence 5 scenario None) = Some [] \<and>
   map_option fst (getSequence 5 (snd (the (getSequence 5 scenario (Some 1)))) (Some 1))
     = Some [scenario_A, scenario_C]"
proof -
  have n: "1 + length (listNodes scenario) \<le> (5::nat)"
    by (simp add: listNodes_def scenario_defs)
  have l: "lookup 1 scenario (Some 1) = Some scenario_A" "lookup 1 scenario None = None"
    by (simp_all add: lookup_def lookup_node_def listNodes_def scenario_defs)
  have c: "chain scenario_A = [scenario_A, scenario_C]"
    by (simp add: scenario_defs)
  note s1 = getSequence_spec [OF scenario_wf n, of "Some 1"]
  from s1 l c obtain t' where
    first: "getSequence 5 scenario (Some 1) = Some ([scenario_A, scenario_C], t')"
      "cache_only scenario t'" "wf_tree t'"
    by (auto simp: returns_def)
  from s1 l c have sc: "single_child_chain scenario_A [scenario_A, scenario_C]" by auto
  from first(3) have "cache_ok t'" by (simp add: wf_tree_def)
  with s1 first(2) l c
  have "returns (getSequence 5 t' (Some 1)) t' [scenario_A, scenario_C]" by auto
  with first(1)
  have again: "map_option fst (getSequence 5 (snd (the (getSequence 5 scenario (Some 1)))) (Some 1))
                 = Some [scenario_A, scenario_C]"
    by (auto simp: returns_def)
  from getSequence_spec [OF scenario_wf n, of None] l
  have "map_option fst (getSequence 5 scenario None) = Some []"
    by (auto simp: returns_def)
  with first(1) sc again show ?thesis using scenario_wf n by simp
qed

section \<open>The main line\<close>

lemma first_child_path_snoc:
  "first_child_path (qs @ [p, n]) =
     (first_child_path (qs @ [p]) \<and> (case children p of [] \<Rightarrow> False | c # _ \<Rightarrow> c = n))"
proof (induction qs)
  case Nil
  show ?case by simp
next
  case (Cons q qs)
  then show ?case by (cases qs) auto
qed

lemma distinct_addr_eq:
  "distinct (map addr xs) \<Longrightarrow> x \<in> set xs \<Longrightarrow> y \<in> set xs \<Longrightarrow> addr x = addr y \<Longrightarrow> x = y"
  by (meson distinct_map inj_onD)

lemma onCurrentLine_absent:
  assumes "wf_tree t" and "aliases_end K t" and "lookup K t io = None" and "K < m"
  shows "returns (onCurrentLine m t io cur) t (Inl TypeError)"
proof -
  from assms(4) obtain m' where m: "m = Suc m'" "K \<le> m'" by (cases m) auto
  from get_lookupE [OF assms(1,2) m(2), of io] obtain t' where
    "get m' t io = Some (lookup K t io, t')" "cache_only t t'" "wf_tree t'" by blast
  with assms(3) m show ?thesis by (simp add: returns_def)
qed

lemma onCurrentLine_main:
  "wf_tree t \<Longrightarrow> aliases_end K t \<Longrightarrow> lookup K t io = Some n \<Longrightarrow>
   path_to (root t) (nid n) = Some ps \<Longrightarrow> length ps = Suc k \<Longrightarrow> K + length ps \<le> m \<Longrightarrow>
   returns (onCurrentLine m t io (Some Map.empty)) t (Inr (first_child_path ps))"
proof (induction k arbitrary: t io n ps m)
  case 0
  from 0(6) 0(5) obtain m' where m: "m = Suc m'" "K \<le> m'" by (cases m) auto
  from get_lookupE [OF 0(1,2) m(2), of io] obtain t1 where
    g: "get m' t io = Some (lookup K t io, t1)" "cache_only t t1" "wf_tree t1" by blast
  from 0(3) have nin: "n \<in> set (listNodes t)" by (rule lookup_Some_in_tree)
  from path_last [OF 0(1) nin 0(4)] 0(5) have "ps = [n]" by (cases ps) auto
  with 0(1,4) have "parentId n = None" "first_child_path ps"
    using path_singleton by (blast, simp)
  with g 0(3) m show ?case by (simp add: returns_def)
next
  case (Suc k)
  from Suc.prems(5,6) obtain m' where m: "m = Suc m'" "K \<le> m'" "K + Suc k \<le> m'"
    by (cases m) auto
  from get_lookupE [OF Suc.prems(1,2) m(2), of io] obtain t1 where
    g: "get m' t io = Some (lookup K t io, t1)" "cache_only t t1" "wf_tree t1" "aliases_end K t1"
    by blast
  from g(2) have rt: "root t1 = root t" "listNodes t1 = listNodes t"
    by (simp_all add: cache_only_fields cache_only_listNodes)
  from Suc.prems(3) have nin: "n \<in> set (listNodes t)" by (rule lookup_Some_in_tree)
  from path_last [OF Suc.prems(1) nin Suc.prems(4)] have l: "last ps = n" "ps \<noteq> []" by simp_all
  with Suc.prems(5) obtain qs p where ps: "ps = qs @ [p, n]"
    by (metis append_butlast_last_id append_Cons append_Nil append_assoc butlast.simps(2)
          length_Cons list.size(3) list.exhaust nat.inject old.nat.distinct(1))
  from Suc.prems(4) ps rt have pt: "path_to (root t1) (nid n) = Some (qs @ [p, n])" by simp
  note pp = path_parent [OF g(3,4) pt]
  from get_lookupE [OF g(3,4) m(2), of "Some (nid p)"] pp(4) obtain t2 where
    g2: "get m' t1 (Some (nid p)) = Some (Some p, t2)" "cache_only t1 t2" "wf_tree t2"
      "aliases_end K t2" by auto
  from g2(2) have rt2: "root t2 = root t1" "listNodes t2 = listNodes t1"
    by (simp_all add: cache_only_fields cache_only_listNodes)
  from g(2) g2(2) have c2: "cache_only t t2" by (rule cache_only_trans)
  from pp(3) obtain ch rest where ch: "children p = ch # rest" by (cases "children p") auto
  with pp(5) have chin: "ch \<in> set (listNodes t1)" by (auto intro: child_in_tree)
  from g(3) have da: "distinct (map addr (listNodes t1))" by (simp add: wf_tree_def tree_ok_def)
  from nin rt chin have addr_eq: "addr ch = addr n \<longleftrightarrow> ch = n"
    using distinct_addr_eq [OF da, of ch n] by auto
  have fcp: "first_child_path ps = (first_child_path (qs @ [p]) \<and> ch = n)"
    using ch by (simp add: ps first_child_path_snoc)
  show ?case
  proof (cases "ch = n")
    case False
    with g(1) Suc.prems(3) m(1) pp(2) g2(1) ch addr_eq
    have "onCurrentLine m t io (Some Map.empty) = Some (Inr False, t2)" by simp
    with fcp False c2 g2(3) show ?thesis by (simp add: returns_def)
  next
    case True
    with g(1) Suc.prems(3) m(1) pp(2) g2(1) ch addr_eq
    have oc: "onCurrentLine m t io (Some Map.empty)
                = onCurrentLine m' t2 (Some (nid p)) (Some Map.empty)" by simp
    from pp(4) g2(2) have l2: "lookup K t2 (Some (nid p)) = Some p"
      by (simp add: lookup_cache_only)
    from pp(1) rt2 have p2: "path_to (root t2) (nid p) = Some (qs @ [p])" by simp
    from Suc.prems(5) ps have len: "length (qs @ [p]) = Suc k" by simp
    from m(3) len have "K + length (qs @ [p]) \<le> m'" by simp
    from Suc.IH [OF g2(3,4) l2 p2 len this] oc c2 fcp True show ?thesis
      by (auto intro: returns_step)
  qed
qed

lemma mainline_nonempty: "mainline r \<noteq> []" "hd (mainline r) = r"
  by (cases r; simp)+

lemma mainline_subset: "set (mainline r) \<subseteq> set (listNodes_inner r)"
proof (induction r rule: mainline.induct)
  case (1 a j d p cs)
  show ?case
  proof (cases cs)
    case Nil
    then show ?thesis by simp
  next
    case (Cons c rest)
    from 1 [OF Cons] Cons show ?thesis by auto
  qed
qed

lemma length_mainline: "length (mainline r) \<le> length (listNodes_inner r)"
proof (induction r rule: mainline.induct)
  case (1 a j d p cs)
  show ?case
  proof (cases cs)
    case Nil
    then show ?thesis by simp
  next
    case (Cons c rest)
    from 1 [OF Cons] Cons show ?thesis by simp
  qed
qed

lemma vertical_main:
  "wf_tree t \<Longrightarrow> aliases_end K t \<Longrightarrow> r \<in> set (listNodes t) \<Longrightarrow>
   K + 1 + length (mainline r) < m \<Longrightarrow>
   returns (vertical_loop m t (Some r) 1 (Some Map.empty)) t (Gen (mainline r) None)"
proof (induction r arbitrary: t m rule: mainline.induct)
  case (1 a j d p cs)
  let ?r = "Node a j d p cs"
  from 1(5) obtain m' where m: "m = Suc m'" "K + 1 < m'" "K + length (mainline ?r) < m'"
    by (cases m) auto
  from lookup_of_node [OF 1(2,3,4)] have l: "lookup K t (Some (nid ?r)) = Some ?r" .
  from navigate_down [OF 1(2,3) l, of 1 m' Map.empty] m(2) obtain t1 where
    nv: "navigate m' t (Some (nid ?r)) 1 (Some Map.empty)
           = Some (Inr (descend K t Map.empty ?r 1), t1)"
      "cache_only t t1" "wf_tree t1"
    by (auto simp: returns_def)
  from 1(3) nv(2) have ae1: "aliases_end K t1" by (rule aliases_end_cache_only)
  from m(2) obtain m'' where m'': "m' = Suc m''" by (cases m') auto
  show ?case
  proof (cases cs)
    case Nil
    then have "descend K t Map.empty ?r 1 = None" by simp
    with nv(1) m(1) m'' have "vertical_loop m t (Some ?r) 1 (Some Map.empty)
        = Some (Gen [?r] None, t1)" by simp
    with Nil nv(2,3) show ?thesis by (simp add: returns_def)
  next
    case (Cons c rest)
    then have d: "descend K t Map.empty ?r 1 = Some c" by simp
    from 1(4) Cons nv(2) have cin: "c \<in> set (listNodes t1)"
      by (auto simp: cache_only_listNodes intro: child_in_tree)
    from m(3) Cons have "K + 1 + length (mainline c) < m'" by simp
    from 1(1) [OF Cons nv(3) ae1 cin this] obtain t2 where
      v: "vertical_loop m' t1 (Some c) 1 (Some Map.empty) = Some (Gen (mainline c) None, t2)"
        "cache_only t1 t2" "wf_tree t2"
      by (auto simp: returns_def)
    from nv(1) d v(1) m(1) have "vertical_loop m t (Some ?r) 1 (Some Map.empty)
        = Some (Gen (?r # mainline c) None, t2)" by simp
    with Cons nv(2) v(2,3) show ?thesis
      by (auto simp: returns_def intro: cache_only_trans)
  qed
qed

lemma root_in_listNodes: "root t \<in> set (listNodes t)"
  by (simp add: listNodes_def)

lemma listMainNodes_mainline:
  assumes "wf_tree t" and "aliases_end K t" and "K + 1 + length (mainline (root t)) < m"
  shows "returns (listMainNodes m t) t (Gen (mainline (root t)) None)"
proof -
  from assms(3) have km: "K \<le> m" by simp
  from lookup_of_node [OF assms(1,2) root_in_listNodes]
  have l: "lookup K t (Some (nid (root t))) = Some (root t)" .
  from get_lookupE [OF assms(1,2) km, of "Some (nid (root t))"] l obtain t1 where
    g: "get m t (Some (nid (root t))) = Some (Some (root t), t1)" "cache_only t t1"
      "wf_tree t1" "aliases_end K t1" by auto
  from g(2) have rt: "root t1 = root t" "listNodes t1 = listNodes t"
    by (simp_all add: cache_only_fields cache_only_listNodes)
  then have "root t \<in> set (listNodes t1)" by (simp add: root_in_listNodes)
  from vertical_main [OF g(3,4) this assms(3)] g(1,2) show ?thesis
    by (auto simp: listMainNodes_def listCurrentNodes_def listNodesVertically_def
             intro: returns_step)
qed

lemma distinct_concat_disjoint:
  "distinct (map f (concat (map g cs))) \<Longrightarrow> cs = c # rest \<Longrightarrow> c' \<in> set rest \<Longrightarrow>
     f ` set (g c) \<inter> f ` set (g c') = {}"
  by auto

lemma first_child_path_mainline:
  "distinct (map nid (listNodes_inner r)) \<Longrightarrow> path_to r i = Some ps \<Longrightarrow>
     first_child_path ps \<longleftrightarrow> i \<in> nid ` set (mainline r)"
proof (induction r arbitrary: ps rule: mainline.induct)
  case (1 a j d p cs)
  let ?r = "Node a j d p cs"
  show ?case
  proof (cases "j = i")
    case True
    with 1(3) show ?thesis by auto
  next
    case False
    with 1(3) obtain qs where qs: "path_in cs i = Some qs" "ps = ?r # qs" by auto
    from path_Some(2) [OF qs(1)] have q: "qs \<noteq> []" "hd qs \<in> set cs"
      "path_to (hd qs) i = Some qs" by simp_all
    then obtain c rest where cs: "cs = c # rest" by (cases cs) auto
    from q(1) obtain q1 qrest where qq: "qs = q1 # qrest" by (cases qs) auto
    from 1(2) cs have dc: "distinct (map nid (listNodes_inner c))" by simp
    have fcp: "first_child_path ps = (c = q1 \<and> first_child_path qs)"
      using qs(2) qq cs by simp
    have ml: "i \<in> nid ` set (mainline ?r) \<longleftrightarrow> i \<in> nid ` set (mainline c)"
      using cs False by auto
    show ?thesis
    proof (cases "c = q1")
      case True
      with q(3) qq have "path_to c i = Some qs" by simp
      from 1(1) [OF cs dc this] fcp ml True show ?thesis by simp
    next
      case False
      with q(2) qq cs have "q1 \<in> set rest" by simp
      moreover from 1(2) have "distinct (map nid (concat (map listNodes_inner cs)))" by simp
      ultimately
      have "nid ` set (listNodes_inner c) \<inter> nid ` set (listNodes_inner q1) = {}"
        using cs by (rule distinct_concat_disjoint [rotated 2])
      moreover from q(3) qq have "i \<in> nid ` set (listNodes_inner q1)"
        using path_None_iff(1) [of q1 i] by auto
      ultimately have "i \<notin> nid ` set (listNodes_inner c)" by blast
      with mainline_subset [of c] have "i \<notin> nid ` set (mainline c)" by blast
      with fcp ml False show ?thesis by simp
    qed
  qed
qed

lemma returns_unique: "returns res t r1 \<Longrightarrow> returns res t r2 \<Longrightarrow> r1 = r2"
  by (auto simp: returns_def)

lemma lookup_node_None_iff: "lookup_node t j = None \<longleftrightarrow> j \<notin> nid ` set (listNodes t)"
  by (auto simp: lookup_node_def find_None_iff)

lemma lookup_node_Some_id: "lookup_node t j = Some n \<Longrightarrow> nid n = j"
  by (auto simp: lookup_node_def find_Some_iff)

text \<open>
  Claim C6, amended. In a well-formed tree and with enough depth for the calls,
  \<^verbatim>\<open>listMainNodes\<close> yields a list of nodes and ends without an error, and
  \<^verbatim>\<open>onMainLine(i)\<close> returns \<^verbatim>\<open>true\<close> if and only if the identifier that \<open>i\<close>
  resolves to through the alias table is the identifier of one of the nodes yielded. For
  an identifier that is no key of the alias table this is the identifier itself.
\<close>

theorem onMainLine_iff_listMainNodes:
  assumes wf: "wf_tree t" and ae: "aliases_end K t" and m: "K + 1 + length (listNodes t) < m"
  shows "\<exists>ns. returns (listMainNodes m t) t (Gen ns None) \<and>
           (returns (onMainLine m t (Some i)) t (Inr True) \<longleftrightarrow>
              (\<exists>j. resolveAlias K (idAliases t) i = Some j \<and> j \<in> nid ` set ns))"
proof -
  let ?ns = "mainline (root t)"
  from length_mainline [of "root t"] m have "K + 1 + length ?ns < m"
    by (simp add: listNodes_def)
  from listMainNodes_mainline [OF wf ae this]
  have lm: "returns (listMainNodes m t) t (Gen ?ns None)" .
  from ae obtain j where j: "resolveAlias K (idAliases t) i = Some j"
    by (auto simp: aliases_end_def)
  then have lk: "lookup K t (Some i) = lookup_node t j" by (simp add: lookup_def)
  have "returns (onMainLine m t (Some i)) t (Inr True) \<longleftrightarrow> j \<in> nid ` set ?ns"
  proof (cases "lookup_node t j")
    case None
    with lk have "lookup K t (Some i) = None" by simp
    from onCurrentLine_absent [OF wf ae this, of m "Some Map.empty"] m
    have "returns (onMainLine m t (Some i)) t (Inl TypeError)" by (simp add: onMainLine_def)
    then have "\<not> returns (onMainLine m t (Some i)) t (Inr True)"
      by (auto dest: returns_unique)
    moreover from None have "j \<notin> nid ` set (listNodes t)" by (simp add: lookup_node_None_iff)
    with mainline_subset [of "root t"] have "j \<notin> nid ` set ?ns"
      by (auto simp: listNodes_def)
    ultimately show ?thesis by simp
  next
    case (Some n)
    with lk have l: "lookup K t (Some i) = Some n" by simp
    from Some have nj: "nid n = j" by (rule lookup_node_Some_id)
    from l have nin: "n \<in> set (listNodes t)" by (rule lookup_Some_in_tree)
    from path_of_node [OF wf nin] obtain ps where
      ps: "path_to (root t) (nid n) = Some ps" "ps \<noteq> []" by blast
    then obtain k where k: "length ps = Suc k" by (cases ps) auto
    from path_length(1) [OF ps(1)] m have "K + length ps \<le> m" by (simp add: listNodes_def)
    from onCurrentLine_main [OF wf ae l ps(1) k this]
    have r: "returns (onMainLine m t (Some i)) t (Inr (first_child_path ps))"
      by (simp add: onMainLine_def)
    from wf have "distinct (map nid (listNodes_inner (root t)))"
      by (simp add: wf_tree_def tree_ok_def listNodes_def)
    from first_child_path_mainline [OF this ps(1)] nj
    have "first_child_path ps \<longleftrightarrow> j \<in> nid ` set ?ns" by simp
    with r show ?thesis by (auto dest: returns_unique)
  qed
  with lm j show ?thesis by auto
qed

lemma aliased_wf: "wf_tree aliased" "aliases_end 2 aliased"
  by (simp_all add: wf_tree_def tree_ok_def aliases_ok_def aliases_end_def cache_ok_def
        cache_ok_for_def listNodes_def aliased_def scenario_defs numeral_2_eq_2)

lemma aliased_listMainNodes:
  "map_option fst (listMainNodes 8 aliased)
     = Some (Gen [scenario_R, scenario_A, scenario_C] None)"
  by (simp add: listMainNodes_def listCurrentNodes_def listNodesVertically_def aliased_def
        scenario_defs numeral_eq_Suc)

theorem onMainLine_iff_listMainNodes_witness:
  "wf_tree aliased \<and> aliases_end 2 aliased \<and> 2 + 1 + length (listNodes aliased) < (8::nat) \<and>
   map_option fst (onMainLine 8 aliased (Some 5)) = Some (Inr True) \<and>
   map_option fst (onMainLine 8 aliased (Some 3)) = Some (Inr True) \<and>
   resolveAlias 2 (idAliases aliased) 5 = Some 3 \<and>
   map_option fst (listMainNodes 8 aliased)
     = Some (Gen [scenario_R, scenario_A, scenario_C] None)"
proof -
  have n: "2 + 1 + length (listNodes aliased) < (8::nat)"
    by (simp add: listNodes_def aliased_def scenario_defs)
  have r: "resolveAlias 2 (idAliases aliased) 5 = Some 3"
    "resolveAlias 2 (idAliases aliased) 3 = Some 3"
    by (simp_all add: aliased_def numeral_2_eq_2)
  have i: "(3::int) \<in> nid ` set [scenario_R, scenario_A, scenario_C]"
    by (simp add: scenario_defs)
  from onMainLine_iff_listMainNodes [OF aliased_wf n, of 5] aliased_listMainNodes r(1) i
  have "returns (onMainLine 8 aliased (Some 5)) aliased (Inr True)"
    by (auto simp: returns_def)
  then have a: "map_option fst (onMainLine 8 aliased (Some 5)) = Some (Inr True)"
    by (auto simp: returns_def)
  from onMainLine_iff_listMainNodes [OF aliased_wf n, of 3] aliased_listMainNodes r(2) i
  have "returns (onMainLine 8 aliased (Some 3)) aliased (Inr True)"
    by (auto simp: returns_def)
  then have b: "map_option fst (onMainLine 8 aliased (Some 3)) = Some (Inr True)"
    by (auto simp: returns_def)
  from a b aliased_wf n r(1) aliased_listMainNodes show ?thesis by simp
qed

text \<open>
  Claim C6 as it is stated fails on the scenario tree with the alias table that sends the
  stale identifier 5 to C: \<^verbatim>\<open>onMainLine(5)\<close> is \<^verbatim>\<open>true\<close>, and the nodes that
  \<^verbatim>\<open>listMainNodes\<close> yields carry the identifiers 0, 1 and 3.
\<close>

theorem onMainLine_alias_counterexample:
  "map_option fst (onMainLine 8 aliased (Some 5)) = Some (Inr True) \<and>
   map_option (map nid \<circ> yielded \<circ> fst) (listMainNodes 8 aliased) = Some [0, 1, 3] \<and>
   (5::int) \<notin> set [0, 1, 3]"
  by (simp add: onMainLine_def listMainNodes_def listCurrentNodes_def listNodesVertically_def
        aliased_def scenario_defs numeral_eq_Suc)

section \<open>The level of a node\<close>

lemma path_to_self: "path_to r (nid r) = Some [r]"
  by (cases r) simp

lemma getLevel_absent:
  assumes "wf_tree t" and "aliases_end K t" and "lookup K t io = None" and "K < m"
  shows "returns (getLevel m t io) t None"
proof -
  from assms(4) obtain m' where m: "m = Suc m'" "K \<le> m'" by (cases m) auto
  from lookup_of_node [OF assms(1,2) root_in_listNodes] assms(3)
  have ne: "io \<noteq> Some (nid (root t))" by auto
  from get_lookupE [OF assms(1,2) m(2), of io] obtain t' where
    "get m' t io = Some (lookup K t io, t')" "cache_only t t'" "wf_tree t'" by blast
  with assms(3) m ne show ?thesis by (simp add: returns_def)
qed

lemma getLevel_node:
  "wf_tree t \<Longrightarrow> aliases_end K t \<Longrightarrow> n \<in> set (listNodes t) \<Longrightarrow>
   path_to (root t) (nid n) = Some ps \<Longrightarrow> length ps = Suc k \<Longrightarrow> K + length ps \<le> m \<Longrightarrow>
   returns (getLevel m t (Some (nid n))) t (Some (int k))"
proof (induction k arbitrary: t n ps m)
  case 0
  from 0(5,6) obtain m' where m: "m = Suc m'" by (cases m) auto
  from path_last [OF 0(1,3,4)] 0(5) have "ps = [n]" by (cases ps) auto
  with 0(1,4) have "n = root t" using path_singleton by blast
  with m 0(1) show ?case by (simp add: returns_def cache_only_refl)
next
  case (Suc k)
  from Suc.prems(5,6) obtain m' where m: "m = Suc m'" "K \<le> m'" "K + Suc k \<le> m'"
    by (cases m) auto
  from path_last [OF Suc.prems(1,3,4)] have l: "last ps = n" "ps \<noteq> []" "hd ps = root t"
    by simp_all
  with Suc.prems(5) obtain qs p where ps: "ps = qs @ [p, n]"
    by (metis append_butlast_last_id append_Cons append_Nil append_assoc butlast.simps(2)
          length_Cons list.size(3) list.exhaust nat.inject old.nat.distinct(1))
  from Suc.prems(1,4) have d: "distinct (map nid (listNodes_inner (root t)))"
    by (simp add: wf_tree_def tree_ok_def listNodes_def)
  have ne: "nid n \<noteq> nid (root t)"
  proof
    assume "nid n = nid (root t)"
    with Suc.prems(1,3) have "n = root t"
      by (auto simp: wf_tree_def tree_ok_def root_in_listNodes intro: distinct_nid_eq)
    then have "path_to (root t) (nid n) = Some [n]" by (simp add: path_to_self)
    with Suc.prems(4,5) show False by auto
  qed
  from lookup_of_node [OF Suc.prems(1,2,3)] have ln: "lookup K t (Some (nid n)) = Some n" .
  from get_lookupE [OF Suc.prems(1,2) m(2), of "Some (nid n)"] ln obtain t1 where
    g: "get m' t (Some (nid n)) = Some (Some n, t1)" "cache_only t t1" "wf_tree t1"
      "aliases_end K t1" by auto
  from g(2) have rt: "root t1 = root t" "listNodes t1 = listNodes t"
    by (simp_all add: cache_only_fields cache_only_listNodes)
  from Suc.prems(4) ps rt have pt: "path_to (root t1) (nid n) = Some (qs @ [p, n])" by simp
  note pp = path_parent [OF g(3,4) pt]
  from Suc.prems(5) ps have len: "length (qs @ [p]) = Suc k" by simp
  from m(3) len have "K + length (qs @ [p]) \<le> m'" by simp
  from Suc.IH [OF g(3,4) pp(5,1) len this] obtain t2 where
    r: "getLevel m' t1 (Some (nid p)) = Some (Some (int k), t2)" "cache_only t1 t2" "wf_tree t2"
    by (auto simp: returns_def)
  from g(1) m(1) ne pp(2) r(1)
  have "getLevel m t (Some (nid n)) = Some (Some (int k + 1), t2)"
    by (simp add: toNumber_def)
  with g(2) r(2,3) show ?case
    by (auto simp: returns_def intro: cache_only_trans)
qed

text \<open>
  What \<^verbatim>\<open>getLevel\<close> returns in a well-formed tree: \<^verbatim>\<open>null\<close> for an identifier that
  resolves to no node; the number of edges of the path from the root for an identifier
  that resolves to a node, with one exception: for an alias of the root it returns 1.
\<close>

lemma getLevel_result:
  assumes wf: "wf_tree t" and ae: "aliases_end K t" and m: "K + 1 + length (listNodes t) < m"
  shows "returns (getLevel m t (Some i)) t
           (case lookup K t (Some i) of
              None \<Rightarrow> None
            | Some n \<Rightarrow>
                (case path_to (root t) (nid n) of
                   None \<Rightarrow> None
                 | Some ps \<Rightarrow>
                     if n = root t \<and> i \<noteq> nid (root t) then Some 1
                     else Some (int (length ps) - 1)))"
proof (cases "lookup K t (Some i)")
  case None
  from getLevel_absent [OF wf ae None, of m] m None show ?thesis by simp
next
  case (Some n)
  then have nin: "n \<in> set (listNodes t)" by (rule lookup_Some_in_tree)
  from path_of_node [OF wf nin] obtain ps where
    ps: "path_to (root t) (nid n) = Some ps" "ps \<noteq> []" "last ps = n" by blast
  then obtain k where k: "length ps = Suc k" by (cases ps) auto
  from path_length(1) [OF ps(1)] m have b: "K + length ps \<le> m" by (simp add: listNodes_def)
  show ?thesis
  proof (cases "idAliases t i")
    case None
    from ae obtain K' where "K = Suc K'" using aliases_end_pos [of K t] by (cases K) auto
    with None Some have "lookup_node t i = Some n" by (simp add: lookup_def)
    then have "nid n = i" by (rule lookup_node_Some_id)
    with getLevel_node [OF wf ae nin ps(1) k b] Some ps(1) k show ?thesis by auto
  next
    case (Some i')
    with wf have inot: "\<forall>x \<in> set (listNodes t). nid x \<noteq> i"
      by (auto simp: wf_tree_def aliases_ok_def)
    then have ir: "i \<noteq> nid (root t)" using root_in_listNodes by blast
    from m obtain m' where m': "m = Suc m'" "K \<le> m'" "K + length ps \<le> m'" "K < m'"
      using b path_length(1) [OF ps(1)] by (cases m) (auto simp: listNodes_def)
    from get_lookupE [OF wf ae m'(2), of "Some i"] \<open>lookup K t (Some i) = Some n\<close> obtain t1
      where g: "get m' t (Some i) = Some (Some n, t1)" "cache_only t t1" "wf_tree t1"
        "aliases_end K t1" by auto
    from g(2) have rt: "root t1 = root t" "listNodes t1 = listNodes t"
      by (simp_all add: cache_only_fields cache_only_listNodes)
    show ?thesis
    proof (cases "n = root t")
      case True
      with wf have "parentId n = None" by (simp add: wf_tree_def tree_ok_def)
      then have "lookup K t1 (parentId n) = None" by (simp add: lookup_def)
      from getLevel_absent [OF g(3,4) this m'(4)] obtain t2 where
        r: "getLevel m' t1 (parentId n) = Some (None, t2)" "cache_only t1 t2" "wf_tree t2"
        by (auto simp: returns_def)
      from g(1) m'(1) ir r(1) have "getLevel m t (Some i) = Some (Some 1, t2)"
        by (simp add: toNumber_def)
      with g(2) r(2,3) True ir \<open>lookup K t (Some i) = Some n\<close> ps(1) show ?thesis
        by (auto simp: returns_def intro: cache_only_trans)
    next
      case False
      with ps k have "length ps \<noteq> 1"
        using path_Some(1) [OF ps(1)] by (cases ps) auto
      with ps(2,3) k obtain qs p where qp: "ps = qs @ [p, n]"
        by (metis append_butlast_last_id append_Cons append_Nil append_assoc butlast.simps(2)
              length_Cons list.size(3) One_nat_def list.exhaust)
      from ps(1) qp rt have pt: "path_to (root t1) (nid n) = Some (qs @ [p, n])" by simp
      note pp = path_parent [OF g(3,4) pt]
      from k qp obtain k' where k': "k = Suc k'" "length (qs @ [p]) = Suc k'" by (cases k) auto
      from m'(3) qp have "K + length (qs @ [p]) \<le> m'" by simp
      from getLevel_node [OF g(3,4) pp(5,1) k'(2) this] obtain t2 where
        r: "getLevel m' t1 (Some (nid p)) = Some (Some (int k'), t2)" "cache_only t1 t2"
          "wf_tree t2" by (auto simp: returns_def)
      from g(1) m'(1) ir pp(2) r(1)
      have "getLevel m t (Some i) = Some (Some (int k' + 1), t2)" by (simp add: toNumber_def)
      with g(2) r(2,3) False \<open>lookup K t (Some i) = Some n\<close> ps(1) k k' show ?thesis
        by (auto simp: returns_def intro: cache_only_trans)
    qed
  qed
qed

subsection \<open>The level of an alias of the root\<close>

text \<open>
  Claim C7, at the scenario tree with the alias table that sends 5 to the root's
  identifier 0: the lookup of 5 gives the root, whose depth is 0, and \<^verbatim>\<open>getLevel(5)\<close>
  returns 1. Line 164 compares the identifier as given with \<^verbatim>\<open>root.id\<close>, before any
  alias is resolved; the call then goes on to \<^verbatim>\<open>getLevel(null) + 1\<close>, and
  \<^verbatim>\<open>null + 1\<close> is 1. \<^verbatim>\<open>getLevel(3)\<close> is 2 in the scenario.
\<close>

theorem getLevel_alias_of_root:
  "map_option fst (getLevel 3 aliased_root (Some 5)) = Some (Some 1) \<and>
   map_option fst (get 3 aliased_root (Some 5)) = Some (Some (root aliased_root)) \<and>
   map_option fst (getLevel 3 aliased_root (Some 0)) = Some (Some 0) \<and>
   map_option fst (getLevel 4 scenario (Some 3)) = Some (Some 2)"
  by (simp add: aliased_root_def scenario_defs numeral_eq_Suc toNumber_def)

section \<open>Lookups that find no node\<close>

lemma getSection_null: "getSection t None = []"
  by (simp add: getSection.simps [of t None] getSection.simps [of t "Some (- 1)"] toNumber_def)

text \<open>
  What the read operations do, in a well-formed tree, with an identifier that resolves to
  no node: all of them return \<^verbatim>\<open>null\<close> or yield nothing, except \<^verbatim>\<open>onCurrentLine\<close>
  and \<^verbatim>\<open>onMainLine\<close>, which end with a \<^verbatim>\<open>TypeError\<close>.
\<close>

lemma unresolved_id_results:
  assumes wf: "wf_tree t" and ae: "aliases_end K t" and l: "lookup K t io = None"
    and m: "K < m" and step: "step = 1 \<or> step = - 1"
  shows "returns (navigate m t io step cur) t (Inr None)"
    and "returns (getLevel m t io) t None"
    and "returns (getSequence m t io) t []"
    and "returns (listNodesVertically m t io step cur) t (Gen [] None)"
    and "returns (listNodesHorizontally m t io step) t (Gen [] None)"
    and "returns (onCurrentLine m t io cur) t (Inl TypeError)"
    and "returns (onMainLine m t io) t (Inl TypeError)"
proof -
  show "returns (navigate m t io step cur) t (Inr None)"
    using wf ae l m by (rule navigate_absent)
  show gl: "returns (getLevel m t io) t None"
    using wf ae l m by (rule getLevel_absent)
  show "returns (getSequence m t io) t []"
    using wf ae l m by (rule getSequence_absent)
  show "returns (onCurrentLine m t io cur) t (Inl TypeError)"
    using wf ae l m by (rule onCurrentLine_absent)
  show "returns (onMainLine m t io) t (Inl TypeError)"
    unfolding onMainLine_def using wf ae l m by (rule onCurrentLine_absent)
  from m obtain m' where m': "m = Suc m'" by (cases m) auto
  from step have s: "\<bar>step\<bar> = 1" by auto
  from m have "K \<le> m" by simp
  from get_lookupE [OF wf ae this, of io] l obtain t1 where
    "get m t io = Some (None, t1)" "cache_only t t1" "wf_tree t1" by auto
  with s m' show "returns (listNodesVertically m t io step cur) t (Gen [] None)"
    by (simp add: listNodesVertically_def returns_def)
  from gl obtain t2 where "getLevel m t io = Some (None, t2)" "cache_only t t2" "wf_tree t2"
    by (auto simp: returns_def)
  with s m' show "returns (listNodesHorizontally m t io step) t (Gen [] None)"
    by (simp add: listNodesHorizontally_def returns_def getSection_null)
qed

text \<open>
  Claim C3, at the scenario tree and the identifier 7, which no node carries and which
  is no alias: \<^verbatim>\<open>onMainLine(7)\<close> and \<^verbatim>\<open>onCurrentLine(7, {})\<close> end with a
  \<^verbatim>\<open>TypeError\<close>, because line 238 reads \<^verbatim>\<open>parentId\<close> of the \<^verbatim>\<open>null\<close> that the
  lookup returned. The operations beside it (\<^verbatim>\<open>navigate\<close>, \<^verbatim>\<open>getLevel\<close>,
  \<^verbatim>\<open>getSequence\<close> and the two list generators) return \<^verbatim>\<open>null\<close> or yield nothing
  there.
\<close>

theorem onMainLine_unknown_id_raises:
  "map_option fst (onMainLine 2 scenario (Some 7)) = Some (Inl TypeError) \<and>
   map_option fst (onCurrentLine 2 scenario (Some 7) (Some Map.empty)) = Some (Inl TypeError) \<and>
   lookup_node scenario 7 = None \<and> resolveAlias 1 (idAliases scenario) 7 = Some 7 \<and>
   map_option fst (navigate 2 scenario (Some 7) 1 (Some Map.empty)) = Some (Inr None) \<and>
   map_option fst (getLevel 2 scenario (Some 7)) = Some None \<and>
   map_option fst (getSequence 2 scenario (Some 7)) = Some [] \<and>
   map_option fst (listNodesVertically 2 scenario (Some 7) 1 (Some Map.empty))
     = Some (Gen [] None) \<and>
   map_option fst (listNodesHorizontally 2 scenario (Some 7) 1) = Some (Gen [] None)"
  by (simp add: onMainLine_def listNodesVertically_def listNodesHorizontally_def scenario_defs
        numeral_eq_Suc lookup_node_def listNodes_def getSection.simps toNumber_def)

section \<open>The step check of the two list generators\<close>

lemma navigate_error_is_TypeError:
  "navigate n t i step currents = Some (Inl e, t') \<Longrightarrow> e = TypeError"
proof (induction n arbitrary: t i step currents)
  case 0
  then show ?case by simp
next
  case (Suc n)
  then show ?case
    by (auto split: option.splits prod.splits if_splits simp: Let_def)
qed

lemma vertical_loop_no_InvalidStep:
  "vertical_loop n t node step currents = Some (g, t') \<Longrightarrow> thrown g \<noteq> Some InvalidStep"
proof (induction n arbitrary: t node g t')
  case 0
  then show ?case by simp
next
  case (Suc n)
  show ?case
  proof (cases node)
    case None
    with Suc.prems show ?thesis by auto
  next
    case (Some nd)
    with Suc.prems Suc.IH show ?thesis
      by (auto split: option.splits prod.splits sum.splits dest: navigate_error_is_TypeError)
  qed
qed

text \<open>
  Claim C9. When \<open>step\<close> is neither 1 nor -1, both generators end with the
  invalid-step error before they yield a node and before they touch the tree, whatever
  the other arguments are. When \<open>step\<close> is 1 or -1, neither of them ends with that
  error.
\<close>

theorem step_validation:
  "(step \<noteq> 1 \<and> step \<noteq> - 1 \<longrightarrow>
      listNodesHorizontally n t startId step = Some (Gen [] (Some InvalidStep), t) \<and>
      listNodesVertically n t startId step currents = Some (Gen [] (Some InvalidStep), t)) \<and>
   (step = 1 \<or> step = - 1 \<longrightarrow>
      map_option (thrown \<circ> fst) (listNodesHorizontally n t startId step)
        \<noteq> Some (Some InvalidStep) \<and>
      map_option (thrown \<circ> fst) (listNodesVertically n t startId step currents)
        \<noteq> Some (Some InvalidStep))"
proof (intro conjI impI)
  assume "step \<noteq> 1 \<and> step \<noteq> - 1"
  then have bad: "\<bar>step\<bar> \<noteq> 1" by arith
  from bad show "listNodesHorizontally n t startId step = Some (Gen [] (Some InvalidStep), t)"
    by (simp add: listNodesHorizontally_def)
  from bad show "listNodesVertically n t startId step currents = Some (Gen [] (Some InvalidStep), t)"
    by (simp add: listNodesVertically_def)
next
  assume "step = 1 \<or> step = - 1"
  then have ok: "\<bar>step\<bar> = 1" by arith
  then show "map_option (thrown \<circ> fst) (listNodesHorizontally n t startId step)
               \<noteq> Some (Some InvalidStep)"
    by (auto simp: listNodesHorizontally_def Let_def split: option.splits prod.splits)
  from ok show "map_option (thrown \<circ> fst) (listNodesVertically n t startId step currents)
               \<noteq> Some (Some InvalidStep)"
    by (auto simp: listNodesVertically_def split: option.splits prod.splits
             dest: vertical_loop_no_InvalidStep)
qed

theorem step_validation_witness:
  "listNodesHorizontally 9 scenario (Some 1) 2 = Some (Gen [] (Some InvalidStep), scenario) \<and>
   listNodesVertically 9 scenario (Some 1) 0 (Some Map.empty)
     = Some (Gen [] (Some InvalidStep), scenario) \<and>
   map_option (thrown \<circ> fst) (listNodesHorizontally 9 scenario (Some 1) 1)
     \<noteq> Some (Some InvalidStep) \<and>
   map_option (thrown \<circ> fst) (listNodesVertically 9 scenario (Some 3) (- 1) (Some Map.empty))
     \<noteq> Some (Some InvalidStep) \<and>
   map_option (map nid \<circ> yielded \<circ> fst) (listNodesHorizontally 9 scenario (Some 1) 1)
     = Some [1, 2, 3] \<and>
   map_option (map nid \<circ> yielded \<circ> fst)
     (listNodesVertically 9 scenario (Some 3) (- 1) (Some Map.empty)) = Some [3, 1, 0]"
proof -
  have a: "listNodesHorizontally 9 scenario (Some 1) 2 = Some (Gen [] (Some InvalidStep), scenario)"
    using step_validation [of 2 9 scenario "Some 1" None] by simp
  have b: "listNodesVertically 9 scenario (Some 1) 0 (Some Map.empty)
             = Some (Gen [] (Some InvalidStep), scenario)"
    using step_validation [of 0 9 scenario "Some 1" "Some Map.empty"] by simp
  have c: "map_option (thrown \<circ> fst) (listNodesHorizontally 9 scenario (Some 1) 1)
             \<noteq> Some (Some InvalidStep)"
    using step_validation [of 1 9 scenario "Some 1" None] by simp
  have d: "map_option (thrown \<circ> fst)
             (listNodesVertically 9 scenario (Some 3) (- 1) (Some Map.empty))
             \<noteq> Some (Some InvalidStep)"
    using step_validation [of "- 1" 9 scenario "Some 3" "Some Map.empty"] by simp
  have e: "map_option (map nid \<circ> yielded \<circ> fst) (listNodesHorizontally 9 scenario (Some 1) 1)
             = Some [1, 2, 3]"
    by code_simp
  have f: "map_option (map nid \<circ> yielded \<circ> fst)
             (listNodesVertically 9 scenario (Some 3) (- 1) (Some Map.empty)) = Some [3, 1, 0]"
    by code_simp
  from a b c d e f show ?thesis by simp
qed

section \<open>Upward navigation and the currents\<close>

text \<open>
  Claim C10. For a step that is zero or negative, \<^verbatim>\<open>navigate\<close> gives the same result
  and leaves the same cache behind for any two \<open>currents\<close> arguments, also for an
  absent one: the currents can only matter for a positive step.
\<close>

theorem navigate_up_ignores_currents:
  "step \<le> 0 \<Longrightarrow> navigate n t i step c1 = navigate n t i step c2"
  by (cases n) (auto split: option.splits prod.splits)

theorem navigate_up_ignores_currents_witness:
  "(- 2 :: int) \<le> 0 \<and>
   navigate 5 scenario (Some 3) (- 2) (Some [1 \<mapsto> 2]) = navigate 5 scenario (Some 3) (- 2) None \<and>
   map_option fst (navigate 5 scenario (Some 3) (- 2) None) = Some (Inr (Some scenario_R))"
proof -
  have "map_option fst (navigate 5 scenario (Some 3) (- 2) None) = Some (Inr (Some scenario_R))"
    by code_simp
  then show ?thesis
    using navigate_up_ignores_currents [of "- 2" 5 scenario "Some 3" "Some [1 \<mapsto> 2]" None]
    by simp
qed

section \<open>The no-op law of \<^verbatim>\<open>mutate\<close>\<close>

lemma mutate_changed_root:
  "addr (draft_root (mutator t)) \<noteq> addr (root t) \<Longrightarrow>
     self (mutate fresh t mutator) = fresh \<and>
     root (mutate fresh t mutator) = draft_root (mutator t) \<and>
     idAliases (mutate fresh t mutator) = draft_idAliases (mutator t)"
  by (simp add: mutate_def GameTree_new_def Let_def)

text \<open>
  Claim C2. If the root of the draft, after the callback has run, is the very object
  that is the root of the tree (\<^verbatim>\<open>===\<close>), then \<^verbatim>\<open>mutate\<close> returns the tree it was
  called on: the same instance, with its node cache, alias table, height cache and hash
  cache as they were. No instance is allocated; the address \<open>fresh\<close> is not used.
\<close>

theorem mutate_noop:
  "addr (draft_root (mutator t)) = addr (root t) \<Longrightarrow> mutate fresh t mutator = t"
  by (simp add: mutate_def)

theorem mutate_noop_witness:
  "addr (draft_root ((\<lambda>t. \<lparr> draft_root = root t, passOnNodeCache = False,
                            draft_nodeCache = Map.empty, draft_idAliases = [7 \<mapsto> 1],
                            draft_structureHashCache = Some 5,
                            draft_heightCache = Some 9 \<rparr>) scenario)) = addr (root scenario) \<and>
   mutate 99 scenario (\<lambda>t. \<lparr> draft_root = root t, passOnNodeCache = False,
                            draft_nodeCache = Map.empty, draft_idAliases = [7 \<mapsto> 1],
                            draft_structureHashCache = Some 5,
                            draft_heightCache = Some 9 \<rparr>) = scenario"
  using mutate_noop [of "\<lambda>t. \<lparr> draft_root = root t, passOnNodeCache = False,
                            draft_nodeCache = Map.empty, draft_idAliases = [7 \<mapsto> 1],
                            draft_structureHashCache = Some 5,
                            draft_heightCache = Some 9 \<rparr>" scenario 99]
  by simp

end
